theory Spec2Isabelle
  imports Main "HOL-Library.AList"
begin

section \<open>JavaScript containers\<close>

text \<open>
  A JavaScript \<open>Map\<close> iterates in insertion order, and \<open>set\<close> on a key that is already
  present keeps the key's position. An association list with \<open>AList.update\<close> behaves the
  same way: it overwrites in place and appends a new key at the end.
\<close>

definition Map_get :: "('k \<times> 'v) list \<Rightarrow> 'k \<Rightarrow> 'v option" where
  "Map_get m k = map_of m k"

definition Map_has :: "('k \<times> 'v) list \<Rightarrow> 'k \<Rightarrow> bool" where
  "Map_has m k = (map_of m k \<noteq> None)"

definition Map_set :: "'k \<Rightarrow> 'v \<Rightarrow> ('k \<times> 'v) list \<Rightarrow> ('k \<times> 'v) list" where
  "Map_set k v m = AList.update k v m"

definition Map_delete :: "'k \<Rightarrow> ('k \<times> 'v) list \<Rightarrow> ('k \<times> 'v) list" where
  "Map_delete k m = AList.delete k m"

definition Map_values :: "('k \<times> 'v) list \<Rightarrow> 'v list" where
  "Map_values m = map snd m"

section \<open>The memory mirror (storage/MemoryFileCache.ts)\<close>

text \<open>
  Modelled from the spec: the \<open>FileData\<close> record type, which the source imports from
  storage/IndexedDBStorage. The spec names the fields \<open>preview\<close>, \<open>featureImage\<close>,
  \<open>tags\<close> and \<open>metadata\<close>; \<open>None\<close> is JavaScript's \<open>null\<close>. The metadata blob is
  opaque (a type parameter), and the functions below are typed over the record scheme, so
  they apply unchanged to a record with further fields.
\<close>

record 'm FileData =
  tags :: "string list option"
  preview :: "string option"
  featureImage :: "string option"
  metadata :: "'m option"

text \<open>
  \<open>FileData\<close> values are JavaScript objects: the mirror holds references to them and
  \<open>updateFileContent\<close> and \<open>clearAllFileContent\<close> assign to their fields in place. The
  object store maps every reference to the object it denotes.
\<close>

type_synonym 'f store = "nat \<Rightarrow> 'f"

record MemoryFileCache =
  memoryMap :: "(string \<times> nat) list"
  isInitialized :: bool

text \<open>The field initialisers of the class: an empty map, not initialised.\<close>

definition MemoryFileCache_new :: MemoryFileCache where
  "MemoryFileCache_new = \<lparr>memoryMap = [], isInitialized = False\<rparr>"

fun initialize_loop :: "(string \<times> nat) list \<Rightarrow> (string \<times> nat) list \<Rightarrow> (string \<times> nat) list" where
  "initialize_loop [] m = m"
| "initialize_loop ((path, data) # rest) m = initialize_loop rest (Map_set path data m)"

definition initialize :: "(string \<times> nat) list \<Rightarrow> MemoryFileCache \<Rightarrow> MemoryFileCache" where
  "initialize filesWithPaths this =
     this\<lparr>memoryMap := initialize_loop filesWithPaths [], isInitialized := True\<rparr>"

definition getFile :: "MemoryFileCache \<Rightarrow> string \<Rightarrow> nat option" where
  "getFile this path = Map_get (memoryMap this) path"

definition hasFile :: "MemoryFileCache \<Rightarrow> string \<Rightarrow> bool" where
  "hasFile this path = Map_has (memoryMap this) path"

definition getAllFiles :: "MemoryFileCache \<Rightarrow> nat list" where
  "getAllFiles this = Map_values (memoryMap this)"

fun getAllFilesWithPaths_loop :: "(string \<times> nat) list \<Rightarrow> (string \<times> nat) list \<Rightarrow> (string \<times> nat) list" where
  "getAllFilesWithPaths_loop [] result = result"
| "getAllFilesWithPaths_loop ((path, data) # rest) result =
     getAllFilesWithPaths_loop rest (result @ [(path, data)])"

definition getAllFilesWithPaths :: "MemoryFileCache \<Rightarrow> (string \<times> nat) list" where
  "getAllFilesWithPaths this = getAllFilesWithPaths_loop (memoryMap this) []"

definition updateFile :: "string \<Rightarrow> nat \<Rightarrow> MemoryFileCache \<Rightarrow> MemoryFileCache" where
  "updateFile path data this = this\<lparr>memoryMap := Map_set path data (memoryMap this)\<rparr>"

fun batchUpdate :: "(string \<times> nat) list \<Rightarrow> MemoryFileCache \<Rightarrow> MemoryFileCache" where
  "batchUpdate [] this = this"
| "batchUpdate ((path, data) # rest) this =
     batchUpdate rest (this\<lparr>memoryMap := Map_set path data (memoryMap this)\<rparr>)"

definition deleteFile :: "string \<Rightarrow> MemoryFileCache \<Rightarrow> MemoryFileCache" where
  "deleteFile path this = this\<lparr>memoryMap := Map_delete path (memoryMap this)\<rparr>"

text \<open>
  The patch object of \<open>updateFileContent\<close>. A property is \<open>None\<close> when it is absent
  (\<open>undefined\<close>) and \<open>Some v\<close> when it is present with value \<open>v\<close>, where \<open>v = None\<close> is
  an explicit \<open>null\<close>. The elements of the array that \<open>batchUpdateFileContent\<close> takes
  carry a \<open>path\<close> in addition.
\<close>

record 'm ContentUpdates =
  upd_preview :: "string option option"
  upd_featureImage :: "string option option"
  upd_metadata :: "'m option option"

record 'm PathContentUpdates = "'m ContentUpdates" +
  upd_path :: string

definition applyUpdates ::
  "('m, 'u) ContentUpdates_scheme \<Rightarrow> ('m, 'z) FileData_scheme \<Rightarrow> ('m, 'z) FileData_scheme" where
  "applyUpdates updates existing =
     (let e1 = (case upd_preview updates of None \<Rightarrow> existing | Some v \<Rightarrow> existing\<lparr>preview := v\<rparr>);
          e2 = (case upd_featureImage updates of None \<Rightarrow> e1 | Some v \<Rightarrow> e1\<lparr>featureImage := v\<rparr>);
          e3 = (case upd_metadata updates of None \<Rightarrow> e2 | Some v \<Rightarrow> e2\<lparr>metadata := v\<rparr>)
      in e3)"

definition updateFileContent ::
  "string \<Rightarrow> ('m, 'u) ContentUpdates_scheme \<Rightarrow> ('m, 'z) FileData_scheme store \<times> MemoryFileCache
     \<Rightarrow> ('m, 'z) FileData_scheme store \<times> MemoryFileCache" where
  "updateFileContent path updates = (\<lambda>(objs, this).
     (case Map_get (memoryMap this) path of
        None \<Rightarrow> (objs, this)
      | Some existing \<Rightarrow> (objs(existing := applyUpdates updates (objs existing)), this)))"

fun batchUpdateFileContent ::
  "('m, 'u) PathContentUpdates_scheme list \<Rightarrow> ('m, 'z) FileData_scheme store \<times> MemoryFileCache
     \<Rightarrow> ('m, 'z) FileData_scheme store \<times> MemoryFileCache" where
  "batchUpdateFileContent [] s = s"
| "batchUpdateFileContent (update # rest) s =
     batchUpdateFileContent rest (updateFileContent (upd_path update) update s)"

datatype content_type = Preview | FeatureImage | Metadata | All

definition clearContent :: "content_type \<Rightarrow> ('m, 'z) FileData_scheme \<Rightarrow> ('m, 'z) FileData_scheme" where
  "clearContent type file =
     (let f1 = (if type = All \<or> type = Preview then file\<lparr>preview := None\<rparr> else file);
          f2 = (if type = All \<or> type = FeatureImage then f1\<lparr>featureImage := None\<rparr> else f1);
          f3 = (if type = All \<or> type = Metadata then f2\<lparr>metadata := None\<rparr> else f2)
      in f3)"

fun clearAllFileContent_loop ::
  "content_type \<Rightarrow> nat list \<Rightarrow> ('m, 'z) FileData_scheme store \<Rightarrow> ('m, 'z) FileData_scheme store" where
  "clearAllFileContent_loop type [] objs = objs"
| "clearAllFileContent_loop type (file # rest) objs =
     clearAllFileContent_loop type rest (objs(file := clearContent type (objs file)))"

definition clearAllFileContent ::
  "content_type \<Rightarrow> ('m, 'z) FileData_scheme store \<times> MemoryFileCache
     \<Rightarrow> ('m, 'z) FileData_scheme store \<times> MemoryFileCache" where
  "clearAllFileContent type = (\<lambda>(objs, this).
     (clearAllFileContent_loop type (Map_values (memoryMap this)) objs, this))"

definition isReady :: "MemoryFileCache \<Rightarrow> bool" where
  "isReady this = isInitialized this"

definition clear :: "MemoryFileCache \<Rightarrow> MemoryFileCache" where
  "clear this = this\<lparr>memoryMap := [], isInitialized := False\<rparr>"

section \<open>Strings\<close>

text \<open>
  Strings are lists of characters. The model is exact for strings of ASCII characters:
  \<open>toLowerCase\<close> maps the letters A to Z to a to z, the case-insensitive comparison of a
  regular expression with flag \<open>i\<close> compares upper-cased characters, and \<open>trim\<close>
  removes the ASCII white space characters. Characters outside ASCII are left as they are,
  where \<open>String.prototype.toLowerCase\<close> and the flag \<open>i\<close> also fold the letters outside
  ASCII and \<open>String.prototype.trim\<close> also removes the white space outside ASCII (U+00A0,
  U+FEFF, the Unicode space separators and line terminators). A property that depends on
  which strings have the same lower-cased form is stated for the strings of \<open>isASCII\<close>.
\<close>

definition isASCII :: "string \<Rightarrow> bool" where
  "isASCII s = list_all (\<lambda>c. of_char c < (128 :: nat)) s"

definition toLowerChar :: "char \<Rightarrow> char" where
  "toLowerChar c =
     (case map_of (zip ''ABCDEFGHIJKLMNOPQRSTUVWXYZ'' ''abcdefghijklmnopqrstuvwxyz'') c of
        Some l \<Rightarrow> l | None \<Rightarrow> c)"

definition toUpperChar :: "char \<Rightarrow> char" where
  "toUpperChar c =
     (case map_of (zip ''abcdefghijklmnopqrstuvwxyz'' ''ABCDEFGHIJKLMNOPQRSTUVWXYZ'') c of
        Some u \<Rightarrow> u | None \<Rightarrow> c)"

definition toLowerCase :: "string \<Rightarrow> string" where
  "toLowerCase s = map toLowerChar s"

definition startsWith :: "string \<Rightarrow> char \<Rightarrow> bool" where
  "startsWith s c = (case s of [] \<Rightarrow> False | x # _ \<Rightarrow> x = c)"

definition endsWith :: "string \<Rightarrow> char \<Rightarrow> bool" where
  "endsWith s c = (case rev s of [] \<Rightarrow> False | x # _ \<Rightarrow> x = c)"

text \<open>\<open>s.startsWith('#') ? s.substring(1) : s\<close>, which the source applies to tags and patterns.\<close>

definition stripHash :: "string \<Rightarrow> string" where
  "stripHash s = (if startsWith s CHR ''#'' then drop 1 s else s)"

text \<open>
  \<open>String.prototype.split\<close> with a one-character separator never returns an empty array:
  the empty string splits into one empty segment. \<open>Array.prototype.join\<close> is its inverse.
\<close>

fun split :: "char \<Rightarrow> string \<Rightarrow> string list" where
  "split sep [] = [[]]"
| "split sep (c # cs) =
     (if c = sep then [] # split sep cs
      else (case split sep cs of [] \<Rightarrow> [[c]] | p # ps \<Rightarrow> (c # p) # ps))"

fun join :: "char \<Rightarrow> string list \<Rightarrow> string" where
  "join sep [] = []"
| "join sep [p] = p"
| "join sep (p # q # ps) = p @ sep # join sep (q # ps)"

definition isWhiteSpace :: "char \<Rightarrow> bool" where
  "isWhiteSpace c = (c \<in> set [CHR 0x09, CHR 0x0A, CHR 0x0B, CHR 0x0C, CHR 0x0D, CHR 0x20])"

definition trim :: "string \<Rightarrow> string" where
  "trim s = rev (dropWhile isWhiteSpace (rev (dropWhile isWhiteSpace s)))"

text \<open>A JavaScript \<open>Set\<close> of strings, in insertion order: \<open>add\<close> ignores a member.\<close>

definition Set_add :: "'a \<Rightarrow> 'a list \<Rightarrow> 'a list" where
  "Set_add x s = (if x \<in> set s then s else s @ [x])"

section \<open>Tag patterns (utils/tagTree.ts)\<close>

text \<open>
  \<open>new RegExp(body, 'i')\<close> is the host's regular expression engine. For a delimited
  pattern the body is whatever the user wrote, so the engine is a parameter of the model:
  it either throws (\<open>Inl\<close>) or returns the compiled expression's \<open>test\<close> function.
\<close>

datatype js_error = SyntaxError

type_synonym RegExp = "string \<Rightarrow> js_error + (string \<Rightarrow> bool)"

text \<open>
  For a wildcard pattern the source builds the expression itself: it puts a backslash
  before each of \<open>. + ? ^ $ { } ( ) | [ ] \<close> and the backslash, and then replaces each \<open>*\<close>
  by \<open>.*\<close>. The result consists of escaped characters, plain characters and \<open>.*\<close> only,
  so its meaning does not depend on the rest of the expression syntax: \<open>parseAtoms\<close> reads
  it and \<open>atomsMatch\<close> is the anchored (\<open>^\<dots>$\<close>), case-insensitive match, in which a dot
  matches any character but a line terminator.
\<close>

definition isSyntaxCharacter :: "char \<Rightarrow> bool" where
  "isSyntaxCharacter c = (c \<in> set (''.+?^${}()|[]'' @ [CHR 0x5C]))"

definition escapeSpecial :: "string \<Rightarrow> string" where
  "escapeSpecial s = concat (map (\<lambda>c. if isSyntaxCharacter c then [CHR 0x5C, c] else [c]) s)"

definition expandStars :: "string \<Rightarrow> string" where
  "expandStars s = concat (map (\<lambda>c. if c = CHR ''*'' then ''.*'' else [c]) s)"

datatype atom = Literal char | AnyChar | AnyStar

fun parseAtoms :: "string \<Rightarrow> atom list" where
  "parseAtoms [] = []"
| "parseAtoms [c] = (if c = CHR ''.'' then [AnyChar] else [Literal c])"
| "parseAtoms (c # d # rest) =
     (if c = CHR 0x5C then Literal d # parseAtoms rest
      else if c = CHR ''.'' then
        (if d = CHR ''*'' then AnyStar # parseAtoms rest else AnyChar # parseAtoms (d # rest))
      else Literal c # parseAtoms (d # rest))"

definition isLineTerminator :: "char \<Rightarrow> bool" where
  "isLineTerminator c = (c = CHR 0x0A \<or> c = CHR 0x0D)"

fun atomsMatch :: "atom list \<Rightarrow> string \<Rightarrow> bool" where
  "atomsMatch [] s = (s = [])"
| "atomsMatch (Literal c # as) s =
     (case s of [] \<Rightarrow> False | x # xs \<Rightarrow> toUpperChar x = toUpperChar c \<and> atomsMatch as xs)"
| "atomsMatch (AnyChar # as) s =
     (case s of [] \<Rightarrow> False | x # xs \<Rightarrow> \<not> isLineTerminator x \<and> atomsMatch as xs)"
| "atomsMatch (AnyStar # as) s =
     (atomsMatch as s \<or>
      (case s of [] \<Rightarrow> False | x # xs \<Rightarrow> \<not> isLineTerminator x \<and> atomsMatch (AnyStar # as) xs))"

definition wildcardTest :: "string \<Rightarrow> string \<Rightarrow> bool" where
  "wildcardTest escapedPattern s = atomsMatch (parseAtoms escapedPattern) s"

text \<open>
  \<open>matchesTagPattern\<close> returns its result, or the error that escapes it, together with the
  lines it writes to the console. The inner \<open>case\<close> is the \<open>try\<close> block and the outer one
  adds the \<open>catch\<close> handler.
\<close>

definition matchesTagPattern :: "RegExp \<Rightarrow> string \<Rightarrow> string \<Rightarrow> (js_error + bool) \<times> string list" where
  "matchesTagPattern RegExp_i tagPath pattern =
     (let cleanTag = stripHash tagPath;
          cleanPattern = stripHash pattern
      in if startsWith cleanPattern CHR ''/'' \<and> endsWith cleanPattern CHR ''/'' then
           (case (case RegExp_i (butlast (drop 1 cleanPattern)) of
                    Inl e \<Rightarrow> Inl e
                  | Inr regex \<Rightarrow> Inr (regex cleanTag)) of
              Inr b \<Rightarrow> (Inr b, [])
            | Inl e \<Rightarrow> (Inr False, [''Invalid regex pattern: '' @ cleanPattern]))
         else
           (let escapedPattern = expandStars (escapeSpecial cleanPattern)
            in (Inr (wildcardTest escapedPattern cleanTag), [])))"

definition parseTagPatterns :: "string \<Rightarrow> string list" where
  "parseTagPatterns patterns = filter (\<lambda>p. length p > 0) (map trim (split CHR '','' patterns))"

text \<open>\<open>patterns.some(pattern => matchesTagPattern(tagPath, pattern))\<close>.\<close>

fun some_matchesTagPattern :: "RegExp \<Rightarrow> string \<Rightarrow> string list \<Rightarrow> js_error + bool" where
  "some_matchesTagPattern RegExp_i tagPath [] = Inr False"
| "some_matchesTagPattern RegExp_i tagPath (pattern # rest) =
     (case fst (matchesTagPattern RegExp_i tagPath pattern) of
        Inl e \<Rightarrow> Inl e
      | Inr b \<Rightarrow> if b then Inr True else some_matchesTagPattern RegExp_i tagPath rest)"


section \<open>Building the tag tree (utils/tagTree.ts)\<close>

text \<open>
  Tag nodes are objects shared between \<open>allNodes\<close>, \<open>tree\<close> and the \<open>children\<close> maps of
  their parents, and they are updated in place. The heap is the list of the node objects
  in allocation order; a reference is an index into it. The type \<open>TagTreeNode\<close> is
  imported from types/storage; its fields are those of the object literal with which the
  build creates a node.
\<close>

record TagTreeNode =
  name :: string
  path :: string
  children :: "(string \<times> nat) list"
  notesWithTag :: "string list"

record build_state =
  heap :: "TagTreeNode list"
  allNodes :: "(string \<times> nat) list"
  tree :: "(string \<times> nat) list"
  untaggedCount :: nat
  caseMap :: "(string \<times> string) list"

text \<open>
  The body of the loop over \<open>parts\<close>, in the source's three steps: get or create the node
  for the current prefix, add the file to the node of the last part, link the node into
  its parent's \<open>children\<close>.
\<close>

definition getOrCreateNode :: "nat \<Rightarrow> string \<Rightarrow> string \<Rightarrow> string \<Rightarrow> build_state \<Rightarrow> nat \<times> build_state" where
  "getOrCreateNode i part currentPath lowerCurrentPath st =
     (case Map_get (allNodes st) lowerCurrentPath of
        Some node \<Rightarrow> (node, st)
      | None \<Rightarrow>
          (let node = length (heap st);
               st1 = st\<lparr>heap := heap st @ [\<lparr>name = part, path = currentPath, children = [],
                                              notesWithTag = []\<rparr>],
                        allNodes := Map_set lowerCurrentPath node (allNodes st)\<rparr>;
               st2 = (if i = 0 then st1\<lparr>tree := Map_set lowerCurrentPath node (tree st1)\<rparr> else st1)
           in (node, st2)))"

definition addNote :: "string \<Rightarrow> nat \<Rightarrow> build_state \<Rightarrow> build_state" where
  "addNote filePath node st =
     st\<lparr>heap := (heap st)[node := (heap st ! node)
            \<lparr>notesWithTag := Set_add filePath (notesWithTag (heap st ! node))\<rparr>]\<rparr>"

definition linkToParent :: "string list \<Rightarrow> nat \<Rightarrow> string \<Rightarrow> nat \<Rightarrow> build_state \<Rightarrow> build_state" where
  "linkToParent parts i lowerCurrentPath node st =
     (let parentPath = toLowerCase (join CHR ''/'' (take i parts))
      in case Map_get (allNodes st) parentPath of
           None \<Rightarrow> st
         | Some parent \<Rightarrow>
             if \<not> Map_has (children (heap st ! parent)) lowerCurrentPath
             then st\<lparr>heap := (heap st)[parent := (heap st ! parent)
                    \<lparr>children := Map_set lowerCurrentPath node (children (heap st ! parent))\<rparr>]\<rparr>
             else st)"

definition partsBody :: "string \<Rightarrow> string list \<Rightarrow> nat \<Rightarrow> string \<Rightarrow> build_state \<Rightarrow> string \<times> build_state" where
  "partsBody filePath parts i currentPath st =
     (let part = parts ! i;
          currentPath' = (if i = 0 then part else currentPath @ CHR ''/'' # part);
          lowerCurrentPath = toLowerCase currentPath';
          (node, st1) = getOrCreateNode i part currentPath' lowerCurrentPath st;
          st2 = (if i = length parts - 1 then addNote filePath node st1 else st1);
          st3 = (if i > 0 then linkToParent parts i lowerCurrentPath node st2 else st2)
      in (currentPath', st3))"

function partsLoop :: "string \<Rightarrow> string list \<Rightarrow> nat \<Rightarrow> string \<Rightarrow> build_state \<Rightarrow> build_state" where
  "partsLoop filePath parts i currentPath st =
     (if i < length parts
      then (case partsBody filePath parts i currentPath st of
              (currentPath', st') \<Rightarrow> partsLoop filePath parts (Suc i) currentPath' st')
      else st)"
  by pat_completeness auto
termination
  by (relation "measure (\<lambda>(filePath, parts, i, currentPath, st). length parts - i)") auto

declare partsLoop.simps [simp del]

text \<open>
  \<open>if (!canonicalPath)\<close> holds when the case map has no entry and also when the entry is
  the empty string.
\<close>

definition processTag :: "string \<Rightarrow> string \<Rightarrow> build_state \<Rightarrow> build_state" where
  "processTag filePath tag st =
     (let tagPath = stripHash tag;
          lowerPath = toLowerCase tagPath;
          (canonicalPath, st1) =
            (case Map_get (caseMap st) lowerPath of
               None \<Rightarrow> (tagPath, st\<lparr>caseMap := Map_set lowerPath tagPath (caseMap st)\<rparr>)
             | Some c \<Rightarrow>
                 if c = [] then (tagPath, st\<lparr>caseMap := Map_set lowerPath tagPath (caseMap st)\<rparr>)
                 else (c, st));
          parts = split CHR ''/'' canonicalPath
      in partsLoop filePath parts 0 [] st1)"

fun tagsLoop :: "string \<Rightarrow> string list \<Rightarrow> build_state \<Rightarrow> build_state" where
  "tagsLoop filePath [] st = st"
| "tagsLoop filePath (tag # rest) st = tagsLoop filePath rest (processTag filePath tag st)"

text \<open>
  \<open>isPathInExcludedFolder\<close> (utils/fileFilters) and the list that \<open>db.getAllFiles()\<close>
  returns are parameters. \<open>excludedFolderPatterns\<close> is optional: \<open>None\<close> is \<open>undefined\<close>.
\<close>

definition inExcludedFolder ::
  "(string \<Rightarrow> string list \<Rightarrow> bool) \<Rightarrow> string list option \<Rightarrow> string \<Rightarrow> bool" where
  "inExcludedFolder isPathInExcludedFolder excludedFolderPatterns filePath =
     (case excludedFolderPatterns of None \<Rightarrow> False
      | Some patterns \<Rightarrow> isPathInExcludedFolder filePath patterns)"

definition processFile ::
  "(string \<Rightarrow> string list \<Rightarrow> bool) \<Rightarrow> string list option
     \<Rightarrow> string \<times> ('m, 'z) FileData_scheme \<Rightarrow> build_state \<Rightarrow> build_state" where
  "processFile isPathInExcludedFolder excludedFolderPatterns = (\<lambda>(filePath, fileData) st.
     if inExcludedFolder isPathInExcludedFolder excludedFolderPatterns filePath
     then st
     else (case tags fileData of
             None \<Rightarrow> st
           | Some ts \<Rightarrow>
               if length ts = 0 then st\<lparr>untaggedCount := untaggedCount st + 1\<rparr>
               else tagsLoop filePath ts st))"

fun filesLoop ::
  "(string \<Rightarrow> string list \<Rightarrow> bool) \<Rightarrow> string list option
     \<Rightarrow> (string \<times> ('m, 'z) FileData_scheme) list \<Rightarrow> build_state \<Rightarrow> build_state" where
  "filesLoop isPathInExcludedFolder excludedFolderPatterns [] st = st"
| "filesLoop isPathInExcludedFolder excludedFolderPatterns (file # rest) st =
     filesLoop isPathInExcludedFolder excludedFolderPatterns rest
       (processFile isPathInExcludedFolder excludedFolderPatterns file st)"

definition initialState :: build_state where
  "initialState = \<lparr>heap = [], allNodes = [], tree = [], untaggedCount = 0, caseMap = []\<rparr>"

definition buildState ::
  "(string \<Rightarrow> string list \<Rightarrow> bool) \<Rightarrow> (string \<times> ('m, 'z) FileData_scheme) list
     \<Rightarrow> string list option \<Rightarrow> build_state" where
  "buildState isPathInExcludedFolder allFiles excludedFolderPatterns =
     filesLoop isPathInExcludedFolder excludedFolderPatterns allFiles initialState"


section \<open>Aggregate note counts with memoisation (utils/tagTree.ts)\<close>

text \<open>
  The module variable \<open>noteCountCache\<close> is a \<open>WeakMap\<close> from node objects to counts, or
  \<open>null\<close>. A \<open>WeakMap\<close> is keyed by object identity, so entries for the nodes of another
  tree cannot collide with entries for this tree's nodes; the model tracks the entries for
  the nodes of one heap, keyed by reference.
\<close>

type_synonym noteCountCache = "(nat \<times> nat) list option"

definition clearNoteCountCache :: noteCountCache where
  "clearNoteCountCache = None"

definition getNoteCountCache :: "noteCountCache \<Rightarrow> (nat \<times> nat) list" where
  "getNoteCountCache cache = (case cache of None \<Rightarrow> [] | Some m \<Rightarrow> m)"

text \<open>
  \<open>collectFromChildren\<close> recurses along \<open>children\<close> references. The recursion is on the
  heap, not on a datatype, so it carries fuel for the nesting depth: \<open>None\<close> means that the
  fuel ran out (or that a reference points outside the heap) before the walk finished.
  The list argument is the part of \<open>n.children.values()\<close> the \<open>for\<close> loop still has
  to visit.
\<close>

fun collectFromChildren :: "nat \<Rightarrow> TagTreeNode list \<Rightarrow> nat list \<Rightarrow> string list \<Rightarrow> string list option" where
  "collectFromChildren fuel h [] allFiles = Some allFiles"
| "collectFromChildren 0 h (child # rest) allFiles = None"
| "collectFromChildren (Suc fuel) h (child # rest) allFiles =
     (if child < length h then
        (case collectFromChildren fuel h (Map_values (children (h ! child)))
                (foldl (\<lambda>s file. Set_add file s) allFiles (notesWithTag (h ! child))) of
           None \<Rightarrow> None
         | Some allFiles' \<Rightarrow> collectFromChildren (Suc fuel) h rest allFiles')
      else None)"

definition getTotalNoteCount ::
  "nat \<Rightarrow> TagTreeNode list \<Rightarrow> noteCountCache \<Rightarrow> nat \<Rightarrow> nat option \<times> noteCountCache" where
  "getTotalNoteCount fuel h noteCountCache node =
     (let cache = getNoteCountCache noteCountCache
      in case Map_get cache node of
           Some cachedCount \<Rightarrow> (Some cachedCount, Some cache)
         | None \<Rightarrow>
             (case collectFromChildren fuel h (Map_values (children (h ! node)))
                     (notesWithTag (h ! node)) of
                None \<Rightarrow> (None, Some cache)
              | Some allFiles \<Rightarrow>
                  (let count = length allFiles
                   in (Some count, Some (Map_set node count cache)))))"

text \<open>A sequence of calls, each starting from the cache the previous one left.\<close>

fun getTotalNoteCounts ::
  "nat \<Rightarrow> TagTreeNode list \<Rightarrow> noteCountCache \<Rightarrow> nat list \<Rightarrow> nat option list" where
  "getTotalNoteCounts fuel h cache [] = []"
| "getTotalNoteCounts fuel h cache (node # rest) =
     (case getTotalNoteCount fuel h cache node of
        (count, cache') \<Rightarrow> count # getTotalNoteCounts fuel h cache' rest)"

text \<open>
  What \<open>buildTagTreeFromDatabase\<close> leaves behind: the returned \<open>{tree, untagged}\<close>, the
  node objects it allocated, and the note count cache, which it clears before returning.
\<close>

record build_output =
  out_tree :: "(string \<times> nat) list"
  out_untagged :: nat
  out_heap :: "TagTreeNode list"
  out_noteCountCache :: noteCountCache

definition buildTagTreeFromDatabase ::
  "(string \<Rightarrow> string list \<Rightarrow> bool) \<Rightarrow> (string \<times> ('m, 'z) FileData_scheme) list
     \<Rightarrow> string list option \<Rightarrow> build_output" where
  "buildTagTreeFromDatabase isPathInExcludedFolder allFiles excludedFolderPatterns =
     (let st = buildState isPathInExcludedFolder allFiles excludedFolderPatterns
      in \<lparr>out_tree = tree st, out_untagged = untaggedCount st, out_heap = heap st,
          out_noteCountCache = clearNoteCountCache\<rparr>)"

section \<open>Pattern filters on the tree (utils/tagTree.ts)\<close>

fun filterTagTree_prefixes :: "RegExp \<Rightarrow> string list \<Rightarrow> string list \<Rightarrow> nat \<Rightarrow> js_error + bool" where
  "filterTagTree_prefixes RegExp_i patterns pathParts 0 = Inr False"
| "filterTagTree_prefixes RegExp_i patterns pathParts (Suc j) =
     (let partialPath = join CHR ''/'' (take (Suc j) pathParts)
      in case some_matchesTagPattern RegExp_i partialPath patterns of
           Inl e \<Rightarrow> Inl e
         | Inr b \<Rightarrow> if b then Inr True
                    else filterTagTree_prefixes RegExp_i patterns pathParts j)"

fun filterTagTree_loop ::
  "RegExp \<Rightarrow> TagTreeNode list \<Rightarrow> string list \<Rightarrow> (string \<times> nat) list \<Rightarrow> (string \<times> nat) list
     \<Rightarrow> js_error + (string \<times> nat) list" where
  "filterTagTree_loop RegExp_i h patterns [] filtered = Inr filtered"
| "filterTagTree_loop RegExp_i h patterns ((key, node) # rest) filtered =
     (let pathParts = split CHR ''/'' (path (h ! node))
      in case filterTagTree_prefixes RegExp_i patterns pathParts (length pathParts) of
           Inl e \<Rightarrow> Inl e
         | Inr shouldInclude \<Rightarrow>
             filterTagTree_loop RegExp_i h patterns rest
               (if shouldInclude then Map_set key node filtered else filtered))"

definition filterTagTree ::
  "RegExp \<Rightarrow> TagTreeNode list \<Rightarrow> (string \<times> nat) list \<Rightarrow> string list
     \<Rightarrow> js_error + (string \<times> nat) list" where
  "filterTagTree RegExp_i h treeMap includePatterns =
     (if length includePatterns = 0 then Inr treeMap
      else filterTagTree_loop RegExp_i h (parseTagPatterns (join CHR '','' includePatterns)) treeMap [])"

fun excludeFromTagTree_loop ::
  "RegExp \<Rightarrow> TagTreeNode list \<Rightarrow> string list \<Rightarrow> (string \<times> nat) list \<Rightarrow> (string \<times> nat) list
     \<Rightarrow> js_error + (string \<times> nat) list" where
  "excludeFromTagTree_loop RegExp_i h patterns [] filtered = Inr filtered"
| "excludeFromTagTree_loop RegExp_i h patterns ((key, node) # rest) filtered =
     (case some_matchesTagPattern RegExp_i (path (h ! node)) patterns of
        Inl e \<Rightarrow> Inl e
      | Inr shouldExclude \<Rightarrow>
          excludeFromTagTree_loop RegExp_i h patterns rest
            (if \<not> shouldExclude then Map_set key node filtered else filtered))"

definition excludeFromTagTree ::
  "RegExp \<Rightarrow> TagTreeNode list \<Rightarrow> (string \<times> nat) list \<Rightarrow> string list
     \<Rightarrow> js_error + (string \<times> nat) list" where
  "excludeFromTagTree RegExp_i h treeMap excludePatterns =
     (if length excludePatterns = 0 then Inr treeMap
      else excludeFromTagTree_loop RegExp_i h (parseTagPatterns (join CHR '','' excludePatterns)) treeMap [])"


section \<open>Invariants of the build\<close>

text \<open>
  The index \<open>allNodes\<close> maps a key to a node of the heap whose lower-cased path is that
  key, and every node of the heap is indexed under its lower-cased path.
\<close>

definition index_sound :: "build_state \<Rightarrow> bool" where
  "index_sound st = (\<forall>k r. map_of (allNodes st) k = Some r \<longrightarrow>
     r < length (heap st) \<and> toLowerCase (path (heap st ! r)) = k)"

definition index_complete :: "build_state \<Rightarrow> bool" where
  "index_complete st = (\<forall>r < length (heap st).
     map_of (allNodes st) (toLowerCase (path (heap st ! r))) = Some r)"

text \<open>The map \<open>tree\<close> holds exactly the indexed nodes whose key has no slash.\<close>

definition roots_ok :: "build_state \<Rightarrow> bool" where
  "roots_ok st = (distinct (map fst (tree st)) \<and>
     (\<forall>k. map_of (tree st) k = (if CHR ''/'' \<in> set k then None else map_of (allNodes st) k)))"

text \<open>
  A \<open>children\<close> entry holds the indexed node of its key; the key extends the parent's key
  by one segment, and the child was allocated after the parent.
\<close>

definition children_ok :: "build_state \<Rightarrow> bool" where
  "children_ok st = (\<forall>r < length (heap st).
     distinct (map fst (children (heap st ! r))) \<and>
     (\<forall>k c. map_of (children (heap st ! r)) k = Some c \<longrightarrow>
        map_of (allNodes st) k = Some c \<and> r < c \<and>
        (\<exists>seg. CHR ''/'' \<notin> set seg \<and> k = toLowerCase (path (heap st ! r)) @ CHR ''/'' # seg)))"

text \<open>
  Every indexed node whose key has a slash, the keys in \<open>X\<close> apart, is a child of the
  indexed node of the key before the last slash. \<open>X\<close> is the key of a node that the loop
  body has created and not yet linked.
\<close>

definition linked_except :: "string set \<Rightarrow> build_state \<Rightarrow> bool" where
  "linked_except X st = (\<forall>k r. map_of (allNodes st) k = Some r \<longrightarrow> CHR ''/'' \<in> set k \<longrightarrow> k \<notin> X \<longrightarrow>
     (\<exists>pk seg pr. k = pk @ CHR ''/'' # seg \<and> CHR ''/'' \<notin> set seg \<and>
        map_of (allNodes st) pk = Some pr \<and> map_of (children (heap st ! pr)) k = Some r))"

definition notes_ok :: "build_state \<Rightarrow> bool" where
  "notes_ok st = (\<forall>r < length (heap st). distinct (notesWithTag (heap st ! r)))"

definition names_ok :: "build_state \<Rightarrow> bool" where
  "names_ok st = (\<forall>r < length (heap st).
     name (heap st ! r) = last (split CHR ''/'' (path (heap st ! r))))"

definition wf_state :: "build_state \<Rightarrow> bool" where
  "wf_state st = (index_sound st \<and> index_complete st \<and> roots_ok st \<and> children_ok st
     \<and> notes_ok st \<and> names_ok st)"

section \<open>Notions the properties are stated with\<close>

text \<open>
  A node is reachable from a map of nodes when it is one of the map's values or a child,
  through \<open>children\<close>, of a reachable node.
\<close>

inductive reachable :: "TagTreeNode list \<Rightarrow> (string \<times> nat) list \<Rightarrow> nat \<Rightarrow> bool"
  for h :: "TagTreeNode list" and t :: "(string \<times> nat) list" where
  root: "(k, r) \<in> set t \<Longrightarrow> reachable h t r"
| child: "reachable h t p \<Longrightarrow> p < length h \<Longrightarrow> (k, c) \<in> set (children (h ! p)) \<Longrightarrow> reachable h t c"

text \<open>The immediate ancestor prefix of a tag path: the path without its last segment.\<close>

definition parentPrefix :: "string \<Rightarrow> string" where
  "parentPrefix p = join CHR ''/'' (butlast (split CHR ''/'' p))"

text \<open>
  The key of the top-level ancestor of a tag path: its first segment, lower-cased.
\<close>

definition topLevelKey :: "string \<Rightarrow> string" where
  "topLevelKey p = toLowerCase (hd (split CHR ''/'' p))"

text \<open>
  The paths the scan meets for one tag path: its prefixes of one, two, ... segments, the
  last of which is the tag path itself.
\<close>

definition tagPrefixes :: "string \<Rightarrow> string list" where
  "tagPrefixes t =
     map (\<lambda>i. join CHR ''/'' (take (Suc i) (split CHR ''/'' t))) [0..<length (split CHR ''/'' t)]"

text \<open>
  The tags the scan processes, in scan order and without the leading \<open>#\<close>: those of the
  records that are not in an excluded folder and whose \<open>tags\<close> is not null.
\<close>

definition scannedTags ::
  "(string \<Rightarrow> string list \<Rightarrow> bool) \<Rightarrow> string list option
     \<Rightarrow> (string \<times> ('m, 'z) FileData_scheme) list \<Rightarrow> string list" where
  "scannedTags isPathInExcludedFolder excludedFolderPatterns allFiles =
     concat (map (\<lambda>(filePath, fileData).
        if inExcludedFolder isPathInExcludedFolder excludedFolderPatterns filePath then []
        else (case tags fileData of None \<Rightarrow> [] | Some ts \<Rightarrow> map stripHash ts)) allFiles)"

definition scannedPaths ::
  "(string \<Rightarrow> string list \<Rightarrow> bool) \<Rightarrow> string list option
     \<Rightarrow> (string \<times> ('m, 'z) FileData_scheme) list \<Rightarrow> string list" where
  "scannedPaths isPathInExcludedFolder excludedFolderPatterns allFiles =
     concat (map tagPrefixes (scannedTags isPathInExcludedFolder excludedFolderPatterns allFiles))"

text \<open>
  The subtree of a node: the node and everything below it along \<open>children\<close>. Its notes
  are the union of \<open>notesWithTag\<close> over the subtree.
\<close>

definition childEdges :: "TagTreeNode list \<Rightarrow> (nat \<times> nat) set" where
  "childEdges h = {(p, c). p < length h \<and> c \<in> set (Map_values (children (h ! p)))}"

definition subtree :: "TagTreeNode list \<Rightarrow> nat \<Rightarrow> nat set" where
  "subtree h r = {d. (r, d) \<in> (childEdges h)\<^sup>*}"

definition subtreeNotes :: "TagTreeNode list \<Rightarrow> nat \<Rightarrow> string set" where
  "subtreeNotes h r = (\<Union>d \<in> subtree h r. set (notesWithTag (h ! d)))"

text \<open>Every memoised count is the size of the notes of the node's subtree.\<close>

definition cache_valid :: "TagTreeNode list \<Rightarrow> noteCountCache \<Rightarrow> bool" where
  "cache_valid h cache = (\<forall>n k. map_of (getNoteCountCache cache) n = Some k \<longrightarrow>
     k = card (subtreeNotes h n))"

text \<open>Children are allocated after their parent, inside the heap; note sets have no duplicates.\<close>

definition heap_ordered :: "TagTreeNode list \<Rightarrow> bool" where
  "heap_ordered h = (\<forall>p < length h. distinct (notesWithTag (h ! p)) \<and>
     (\<forall>c \<in> set (Map_values (children (h ! p))). p < c \<and> c < length h))"

text \<open>
  The casing invariant of the build: the index holds a key exactly when a path met so far
  has that lower-cased form, and the node's path is the first such path. The case map
  holds tags met so far, under their lower-cased form.
\<close>

definition casing_ok :: "string list \<Rightarrow> build_state \<Rightarrow> bool" where
  "casing_ok L st = (\<forall>k. map_option (\<lambda>r. path (heap st ! r)) (map_of (allNodes st) k)
     = List.find (\<lambda>p. toLowerCase p = k) L)"

definition caseMap_ok :: "string list \<Rightarrow> build_state \<Rightarrow> bool" where
  "caseMap_ok T st = (\<forall>k c. map_of (caseMap st) k = Some c \<longrightarrow> c \<in> set T \<and> toLowerCase c = k)"

text \<open>The state of the build after the tags \<open>T\<close> have been processed.\<close>

definition scan_inv :: "string list \<Rightarrow> build_state \<Rightarrow> bool" where
  "scan_inv T st = (wf_state st \<and> linked_except {} st \<and> caseMap_ok T st
     \<and> casing_ok (concat (map tagPrefixes T)) st)"

text \<open>Example inputs for the concrete instances below.\<close>

definition fileWithTags :: "string list option \<Rightarrow> unit FileData" where
  "fileWithTags ts = \<lparr>tags = ts, preview = None, featureImage = None, metadata = None\<rparr>"

definition noExclusion :: "string \<Rightarrow> string list \<Rightarrow> bool" where
  "noExclusion filePath patterns = False"

definition mixedCaseFiles :: "(string \<times> unit FileData) list" where
  "mixedCaseFiles = [(''a.md'', fileWithTags (Some [''#Project/a'', ''#project/B'']))]"

definition nestedFiles :: "(string \<times> unit FileData) list" where
  "nestedFiles = [(''a.md'', fileWithTags (Some [''#project'', ''#project/sub''])),
                  (''b.md'', fileWithTags (Some [''#project/sub'']))]"

definition prefixFirstFiles :: "(string \<times> unit FileData) list" where
  "prefixFirstFiles = [(''a.md'', fileWithTags (Some [''#PROJECT/sub''])),
                       (''b.md'', fileWithTags (Some [''#Project''])),
                       (''c.md'', fileWithTags (Some [''#project'']))]"



text \<open>An engine that rejects every expression; the wildcard patterns do not use it.\<close>

definition noRegExp :: RegExp where
  "noRegExp body = Inl SyntaxError"

section \<open>Properties of the memory mirror\<close>

lemma Map_set_fresh: "k \<notin> fst ` set m \<Longrightarrow> Map_set k v m = m @ [(k, v)]"
  unfolding Map_set_def by (induction m) auto

lemma initialize_loop_distinct:
  "distinct (map fst (m @ fs)) \<Longrightarrow> initialize_loop fs m = m @ fs"
proof (induction fs arbitrary: m)
  case Nil
  then show ?case by simp
next
  case (Cons f fs)
  obtain p d where f: "f = (p, d)" by (cases f)
  from Cons.prems have fresh: "p \<notin> fst ` set m" by (auto simp: f)
  from Cons.prems have "distinct (map fst ((m @ [(p, d)]) @ fs))" by (simp add: f)
  from Cons.IH [OF this] show ?case by (simp add: f Map_set_fresh [OF fresh])
qed

lemma getAllFilesWithPaths_loop_app: "getAllFilesWithPaths_loop m result = result @ m"
  by (induction m arbitrary: result) auto

lemma clearAllFileContent_loop_other:
  "r \<notin> set files \<Longrightarrow> clearAllFileContent_loop type files objs r = objs r"
  by (induction files arbitrary: objs) auto

lemma clearContent_idem: "clearContent type (clearContent type f) = clearContent type f"
  by (cases type) (simp_all add: clearContent_def)

lemma clearAllFileContent_loop_cleared:
  "clearAllFileContent_loop type files objs r =
     (if r \<in> set files then clearContent type (objs r) else objs r)"
  by (induction files arbitrary: objs) (auto simp: clearContent_idem)

lemma isInitialized_batchUpdate:
  "isInitialized (batchUpdate updates c) = isInitialized c"
proof (induction updates arbitrary: c)
  case Nil
  show ?case by simp
next
  case (Cons u updates)
  obtain p d where u: "u = (p, d)" by (cases u)
  show ?case unfolding u batchUpdate.simps Cons.IH by simp
qed

lemma isReady_preserved:
  "isReady (updateFile p d c) = isReady c"
  "isReady (batchUpdate updates c) = isReady c"
  "isReady (deleteFile p c) = isReady c"
  by (simp_all add: isReady_def updateFile_def deleteFile_def isInitialized_batchUpdate)

text \<open>
  C5. For an input list with pairwise distinct paths, \<open>initialize\<close> replaces whatever the
  mirror held before by exactly the input: \<open>getAllFilesWithPaths\<close> then returns the input
  pairs (here even in input order, hence the same set, the same size and the same
  path-to-record association). \<open>isReady\<close> is false on a freshly constructed mirror, the
  operations that write or delete records leave it as it is (the content patches do not
  touch the mirror object at all), and it is true after \<open>initialize\<close>.
\<close>

theorem initialize_replaces_mirror:
  assumes "distinct (map fst filesWithPaths)"
  shows "getAllFilesWithPaths (initialize filesWithPaths this) = filesWithPaths
       \<and> set (getAllFilesWithPaths (initialize filesWithPaths this)) = set filesWithPaths
       \<and> length (getAllFilesWithPaths (initialize filesWithPaths this)) = length filesWithPaths
       \<and> (\<forall>q. getFile (initialize filesWithPaths this) q = map_of filesWithPaths q)
       \<and> \<not> isReady MemoryFileCache_new
       \<and> isReady (initialize filesWithPaths this)
       \<and> isReady (updateFile p d this) = isReady this
       \<and> isReady (batchUpdate updates this) = isReady this
       \<and> isReady (deleteFile p this) = isReady this"
proof -
  from assms have e: "initialize_loop filesWithPaths [] = filesWithPaths"
    using initialize_loop_distinct [of "[]" filesWithPaths] by simp
  have 1: "getAllFilesWithPaths (initialize filesWithPaths this) = filesWithPaths"
    by (simp add: getAllFilesWithPaths_def initialize_def getAllFilesWithPaths_loop_app e)
  have 2: "\<forall>q. getFile (initialize filesWithPaths this) q = map_of filesWithPaths q"
    by (simp add: getFile_def Map_get_def initialize_def e)
  have 3: "\<not> isReady MemoryFileCache_new" by (simp add: isReady_def MemoryFileCache_new_def)
  have 4: "isReady (initialize filesWithPaths this)" by (simp add: isReady_def initialize_def)
  note r = isReady_preserved(1) [of p d this] isReady_preserved(2) [of updates this]
    isReady_preserved(3) [of p this]
  from 1 have 5: "set (getAllFilesWithPaths (initialize filesWithPaths this)) = set filesWithPaths"
    and 6: "length (getAllFilesWithPaths (initialize filesWithPaths this)) = length filesWithPaths"
    by simp_all
  from 1 5 6 2 3 4 r show ?thesis by blast
qed

theorem initialize_replaces_mirror_witness:
  "distinct (map fst [(''a.md'', 0::nat), (''b.md'', 1)])
   \<and> getAllFilesWithPaths (initialize [(''a.md'', 0), (''b.md'', 1)]
        (updateFile ''old.md'' 7 MemoryFileCache_new)) = [(''a.md'', 0), (''b.md'', 1)]
   \<and> isReady (initialize [(''a.md'', 0), (''b.md'', 1)] (updateFile ''old.md'' 7 MemoryFileCache_new))
   \<and> \<not> isReady (updateFile ''old.md'' 7 MemoryFileCache_new)"
proof -
  have d: "distinct (map fst [(''a.md'', 0::nat), (''b.md'', 1)])" by simp
  note t = initialize_replaces_mirror [OF d, where this = "updateFile ''old.md'' 7 MemoryFileCache_new"]
  note u = initialize_replaces_mirror [OF d, where this = MemoryFileCache_new and p = "''old.md''" and d = 7]
  from t have a: "getAllFilesWithPaths (initialize [(''a.md'', 0), (''b.md'', 1)]
        (updateFile ''old.md'' 7 MemoryFileCache_new)) = [(''a.md'', 0), (''b.md'', 1)]"
    by (rule conjunct1)
  from t have b: "isReady (initialize [(''a.md'', 0), (''b.md'', 1)]
        (updateFile ''old.md'' 7 MemoryFileCache_new))" by blast
  from u have c: "\<not> isReady (updateFile ''old.md'' 7 MemoryFileCache_new)" by blast
  from d a b c show ?thesis by (intro conjI)
qed

text \<open>
  C7. \<open>clearAllFileContent("preview")\<close> leaves the mirror's map (its keys and the
  references they hold) as it is, sets \<open>preview\<close> to null on every record of the mirror
  and changes no other field of those records; objects the mirror does not hold are not
  touched at all.
\<close>

theorem clearAllFileContent_preview_frame:
  assumes "clearAllFileContent Preview (objs, this) = (objs', this')"
  shows "this' = this
       \<and> (\<forall>(p, r) \<in> set (memoryMap this).
            preview (objs' r) = None
          \<and> featureImage (objs' r) = featureImage (objs r)
          \<and> tags (objs' r) = tags (objs r)
          \<and> metadata (objs' r) = metadata (objs r)
          \<and> FileData.more (objs' r) = FileData.more (objs r))
       \<and> (\<forall>r. r \<notin> snd ` set (memoryMap this) \<longrightarrow> objs' r = objs r)"
proof -
  from assms have t: "this' = this"
    and o: "objs' = clearAllFileContent_loop Preview (Map_values (memoryMap this)) objs"
    by (auto simp: clearAllFileContent_def)
  have held: "\<And>p r. (p, r) \<in> set (memoryMap this) \<Longrightarrow> r \<in> set (Map_values (memoryMap this))"
    by (force simp: Map_values_def)
  have vals: "set (Map_values (memoryMap this)) = snd ` set (memoryMap this)"
    by (simp add: Map_values_def)
  have "\<forall>(p, r) \<in> set (memoryMap this).
            preview (objs' r) = None
          \<and> featureImage (objs' r) = featureImage (objs r)
          \<and> tags (objs' r) = tags (objs r)
          \<and> metadata (objs' r) = metadata (objs r)
          \<and> FileData.more (objs' r) = FileData.more (objs r)"
    unfolding o by (auto simp: clearAllFileContent_loop_cleared held clearContent_def)
  moreover have "\<forall>r. r \<notin> snd ` set (memoryMap this) \<longrightarrow> objs' r = objs r"
    unfolding o by (simp add: clearAllFileContent_loop_cleared vals)
  ultimately show ?thesis using t by simp
qed

theorem clearAllFileContent_preview_frame_witness:
  "clearAllFileContent Preview
     ((\<lambda>_. \<lparr>tags = Some [''#x''], preview = Some ''text'', featureImage = Some ''i.png'',
            metadata = Some (1::nat)\<rparr>),
      \<lparr>memoryMap = [(''a.md'', 0), (''b.md'', 1)], isInitialized = True\<rparr>)
   = (clearAllFileContent_loop Preview [0, 1]
        (\<lambda>_. \<lparr>tags = Some [''#x''], preview = Some ''text'', featureImage = Some ''i.png'',
              metadata = Some (1::nat)\<rparr>),
      \<lparr>memoryMap = [(''a.md'', 0), (''b.md'', 1)], isInitialized = True\<rparr>)
   \<and> preview (clearAllFileContent_loop Preview [0, 1]
        (\<lambda>_. \<lparr>tags = Some [''#x''], preview = Some ''text'', featureImage = Some ''i.png'',
              metadata = Some (1::nat)\<rparr>) 1) = None
   \<and> featureImage (clearAllFileContent_loop Preview [0, 1]
        (\<lambda>_. \<lparr>tags = Some [''#x''], preview = Some ''text'', featureImage = Some ''i.png'',
              metadata = Some (1::nat)\<rparr>) 1) = Some ''i.png''"
proof -
  let ?objs = "\<lambda>_::nat. \<lparr>tags = Some [''#x''], preview = Some ''text'',
      featureImage = Some ''i.png'', metadata = Some (1::nat)\<rparr>"
  let ?mc = "\<lparr>memoryMap = [(''a.md'', 0), (''b.md'', 1::nat)], isInitialized = True\<rparr>"
  have run: "clearAllFileContent Preview (?objs, ?mc)
      = (clearAllFileContent_loop Preview [0, 1] ?objs, ?mc)"
    by (simp add: clearAllFileContent_def Map_values_def)
  from clearAllFileContent_preview_frame [OF run] run show ?thesis by simp
qed

text \<open>
  C9. \<open>updateFileContent\<close> on a path the mirror has no record for changes nothing: the
  object store and the mirror come back as they were, and the path is still absent. The
  same holds for \<open>batchUpdateFileContent\<close> when none of its paths has a record. The whole
  record operations differ: \<open>updateFile\<close> and \<open>batchUpdate\<close> create the entry.
\<close>

lemma batchUpdateFileContent_absent:
  "\<forall>u \<in> set updates. getFile this (upd_path u) = None
   \<Longrightarrow> batchUpdateFileContent updates (objs, this) = (objs, this)"
  by (induction updates) (auto simp: updateFileContent_def getFile_def)

lemma Map_set_get: "Map_get (Map_set k v m) k' = (if k' = k then Some v else Map_get m k')"
  by (simp add: Map_get_def Map_set_def update_conv')

theorem updateFileContent_absent_noop:
  assumes "getFile this filePath = None"
    and "\<forall>u \<in> set updates. getFile this (upd_path u) = None"
  shows "updateFileContent filePath upd (objs, this) = (objs, this)
       \<and> batchUpdateFileContent updates (objs, this) = (objs, this)
       \<and> getFile (snd (updateFileContent filePath upd (objs, this))) filePath = None
       \<and> getFile (updateFile filePath data this) filePath = Some data
       \<and> getFile (batchUpdate [(filePath, data)] this) filePath = Some data"
  using assms batchUpdateFileContent_absent [of updates this objs]
  by (simp add: updateFileContent_def getFile_def updateFile_def Map_set_get)

theorem updateFileContent_absent_noop_witness:
  "getFile (initialize [(''a.md'', 0)] MemoryFileCache_new) ''b.md'' = None
   \<and> updateFileContent ''b.md''
        \<lparr>upd_preview = Some (Some ''x''), upd_featureImage = None, upd_metadata = None\<rparr>
        ((\<lambda>_. \<lparr>tags = None, preview = None, featureImage = None, metadata = (None :: nat option)\<rparr>),
         initialize [(''a.md'', 0)] MemoryFileCache_new)
     = ((\<lambda>_. \<lparr>tags = None, preview = None, featureImage = None, metadata = None\<rparr>),
        initialize [(''a.md'', 0)] MemoryFileCache_new)
   \<and> getFile (updateFile ''b.md'' 1 (initialize [(''a.md'', 0)] MemoryFileCache_new)) ''b.md''
     = Some 1"
proof -
  let ?mc = "initialize [(''a.md'', 0)] MemoryFileCache_new"
  let ?upd = "\<lparr>upd_preview = Some (Some ''x''), upd_featureImage = None,
      upd_metadata = (None :: nat option option)\<rparr>"
  let ?batch = "[\<lparr>upd_preview = Some (Some ''x''), upd_featureImage = None,
      upd_metadata = (None :: nat option option), upd_path = ''c.md''\<rparr>]"
  have a: "getFile ?mc ''b.md'' = None"
    by (simp add: getFile_def initialize_def Map_get_def Map_set_def)
  have b: "\<forall>u \<in> set ?batch. getFile ?mc (upd_path u) = None"
    by (simp add: getFile_def initialize_def Map_get_def Map_set_def)
  let ?objs = "\<lambda>_::nat. \<lparr>tags = None, preview = None, featureImage = None,
      metadata = (None :: nat option)\<rparr>"
  from updateFileContent_absent_noop [OF a b, where upd = ?upd and data = 1 and objs = ?objs] a
  show ?thesis by simp
qed

section \<open>Properties of the pattern matcher\<close>

lemma matchesTagPattern_returns: "\<exists>b. fst (matchesTagPattern RegExp_i tagPath pattern) = Inr b"
  by (auto simp: matchesTagPattern_def Let_def split: sum.splits)

text \<open>
  C8. For a delimited pattern (after the leading \<open>#\<close> is dropped, it starts and ends with
  a slash) \<open>matchesTagPattern\<close> returns a boolean and lets no error escape, whatever the
  engine does with the body: when the engine throws, the call logs one line and returns
  false; when the body compiles, the call returns the result of \<open>test\<close> and logs nothing.
\<close>

theorem matchesTagPattern_delimited_never_raises:
  assumes "startsWith (stripHash pattern) CHR ''/''" and "endsWith (stripHash pattern) CHR ''/''"
  shows "(\<exists>b. fst (matchesTagPattern RegExp_i tagPath pattern) = Inr b)
       \<and> (\<forall>e. RegExp_i (butlast (drop 1 (stripHash pattern))) = Inl e \<longrightarrow>
             matchesTagPattern RegExp_i tagPath pattern
               = (Inr False, [''Invalid regex pattern: '' @ stripHash pattern]))
       \<and> (\<forall>regex. RegExp_i (butlast (drop 1 (stripHash pattern))) = Inr regex \<longrightarrow>
             matchesTagPattern RegExp_i tagPath pattern = (Inr (regex (stripHash tagPath)), []))"
  using assms by (auto simp: matchesTagPattern_def Let_def split: sum.splits)

theorem matchesTagPattern_delimited_never_raises_witness:
  "startsWith (stripHash ''/[a/'') CHR ''/'' \<and> endsWith (stripHash ''/[a/'') CHR ''/''
   \<and> (\<lambda>body. if body = ''[a'' then Inl SyntaxError else Inr (\<lambda>_. True))
        (butlast (drop 1 (stripHash ''/[a/''))) = Inl SyntaxError
   \<and> matchesTagPattern (\<lambda>body. if body = ''[a'' then Inl SyntaxError else Inr (\<lambda>_. True))
        ''project'' ''/[a/'' = (Inr False, [''Invalid regex pattern: /[a/''])"
proof -
  have a: "startsWith (stripHash ''/[a/'') CHR ''/''" by (simp add: startsWith_def stripHash_def)
  have b: "endsWith (stripHash ''/[a/'') CHR ''/''" by (simp add: endsWith_def startsWith_def stripHash_def)
  have c: "stripHash ''/[a/'' = ''/[a/''" by (simp add: startsWith_def stripHash_def)
  from matchesTagPattern_delimited_never_raises [OF a b,
      of "\<lambda>body. if body = ''[a'' then Inl SyntaxError else Inr (\<lambda>_. True)" "''project''"] a b c
  show ?thesis by simp
qed

section \<open>The untagged counter\<close>


lemma partsLoop_invariant:
  assumes "i \<le> length parts" and "P i c st"
    and "\<And>j c st c' st'. j < length parts \<Longrightarrow> P j c st
          \<Longrightarrow> partsBody f parts j c st = (c', st') \<Longrightarrow> P (Suc j) c' st'"
    and "\<And>c' st'. P (length parts) c' st' \<Longrightarrow> Q st'"
  shows "Q (partsLoop f parts i c st)"
  using assms
proof (induction f parts i c st rule: partsLoop.induct)
  case (1 f parts i c st)
  show ?case
  proof (cases "i < length parts")
    case True
    obtain c' st' where b: "partsBody f parts i c st = (c', st')"
      by (cases "partsBody f parts i c st")
    have "P (Suc i) c' st'" using "1.prems"(3) [OF True "1.prems"(2) b] .
    moreover have "Suc i \<le> length parts" using True by simp
    ultimately have "Q (partsLoop f parts (Suc i) c' st')"
      using "1.IH" [OF True b [symmetric]] "1.prems"(3,4) by blast
    then show ?thesis using True b by (simp add: partsLoop.simps [of f parts i])
  next
    case False
    with "1.prems" have "i = length parts" by simp
    with "1.prems"(2,4) have "Q st" by blast
    moreover from False have "partsLoop f parts i c st = st"
      by (simp add: partsLoop.simps [of f parts i])
    ultimately show ?thesis by simp
  qed
qed









section \<open>Properties of the string functions\<close>

lemma toLowerChar_slash: "toLowerChar c = CHR ''/'' \<longleftrightarrow> c = CHR ''/''"
  by (simp add: toLowerChar_def split: if_splits)

lemma toLowerCase_append: "toLowerCase (a @ b) = toLowerCase a @ toLowerCase b"
  by (simp add: toLowerCase_def)

lemma toLowerCase_Cons_slash: "toLowerCase (CHR ''/'' # s) = CHR ''/'' # toLowerCase s"
  by (simp add: toLowerCase_def toLowerChar_def)

lemma slash_in_toLowerCase: "CHR ''/'' \<in> set (toLowerCase s) \<longleftrightarrow> CHR ''/'' \<in> set s"
  by (simp add: toLowerCase_def image_iff) (metis toLowerChar_slash)

lemma length_toLowerCase: "length (toLowerCase s) = length s"
  by (simp add: toLowerCase_def)

lemma split_nonempty: "split sep s \<noteq> []"
  by (induction s) (auto split: list.splits)

lemma split_no_sep: "sep \<notin> set s \<Longrightarrow> split sep s = [s]"
  by (induction s) auto

lemma split_parts_no_sep: "p \<in> set (split sep s) \<Longrightarrow> sep \<notin> set p"
proof (induction s arbitrary: p)
  case Nil
  then show ?case by simp
next
  case (Cons c s)
  show ?case
  proof (cases "c = sep")
    case True
    with Cons show ?thesis by auto
  next
    case False
    obtain q qs where q: "split sep s = q # qs" using split_nonempty [of sep s] by (cases "split sep s") auto
    with Cons False show ?thesis by auto
  qed
qed

lemma split_append_sep: "split sep (a @ sep # b) = split sep a @ split sep b"
proof (induction a)
  case Nil
  show ?case by simp
next
  case (Cons c a)
  obtain q qs where q: "split sep a = q # qs" using split_nonempty [of sep a] by (cases "split sep a") auto
  obtain q' qs' where q': "split sep (a @ sep # b) = q' # qs'"
    using split_nonempty [of sep "a @ sep # b"] by (cases "split sep (a @ sep # b)") auto
  from Cons q q' show ?case by auto
qed

lemma join_split: "join sep (split sep s) = s"
proof (induction s)
  case Nil
  show ?case by simp
next
  case (Cons c s)
  obtain q qs where q: "split sep s = q # qs" using split_nonempty [of sep s] by (cases "split sep s") auto
  with Cons show ?case by (cases qs) auto
qed

lemma join_snoc: "join sep (xs @ [x]) = (if xs = [] then x else join sep xs @ sep # x)"
  by (induction sep xs rule: join.induct) auto

lemma join_take_Suc:
  assumes "i < length parts"
  shows "join sep (take (Suc i) parts)
     = (if i = 0 then parts ! i else join sep (take i parts) @ sep # parts ! i)"
proof -
  have t: "take (Suc i) parts = take i parts @ [parts ! i]"
    using assms by (simp add: take_Suc_conv_app_nth)
  have e: "take i parts = [] \<longleftrightarrow> i = 0" using assms by (cases parts) auto
  show ?thesis unfolding t join_snoc e ..
qed

lemma first_occurrence_unique:
  "x \<notin> set xs \<Longrightarrow> x \<notin> set xs' \<Longrightarrow> xs @ x # ys = xs' @ x # ys' \<Longrightarrow> xs = xs' \<and> ys = ys'"
proof (induction xs arbitrary: xs')
  case Nil
  then show ?case by (cases xs') auto
next
  case (Cons a xs)
  then show ?case by (cases xs') auto
qed

lemma slash_decomp_unique:
  assumes "a @ c # s = b @ c # t" and "c \<notin> set s" and "c \<notin> set t"
  shows "a = b \<and> s = t"
proof -
  from assms(1) have "rev (a @ c # s) = rev (b @ c # t)" by simp
  then have "rev s @ c # rev a = rev t @ c # rev b" by simp
  with assms(2,3) have "rev s = rev t \<and> rev a = rev b"
    using first_occurrence_unique [of c "rev s" "rev t" "rev a" "rev b"] by simp
  then show ?thesis by simp
qed

lemma split_toLowerCase: "split CHR ''/'' (toLowerCase s) = map toLowerCase (split CHR ''/'' s)"
proof (induction s)
  case Nil
  show ?case by (simp add: toLowerCase_def)
next
  case (Cons c s)
  obtain q qs where q: "split CHR ''/'' s = q # qs"
    using split_nonempty [of "CHR ''/''" s] by (cases "split CHR ''/'' s") auto
  from Cons q show ?case
    by (auto simp: toLowerCase_def toLowerChar_slash)
qed

section \<open>Properties of the containers\<close>

lemma map_of_Map_set: "map_of (Map_set k v m) = (map_of m)(k \<mapsto> v)"
  by (simp add: Map_set_def update_conv')

lemma distinct_Map_set: "distinct (map fst m) \<Longrightarrow> distinct (map fst (Map_set k v m))"
  by (simp add: Map_set_def distinct_update)

lemma distinct_Set_add: "distinct s \<Longrightarrow> distinct (Set_add x s)"
  by (simp add: Set_add_def)

lemma set_Set_add: "set (Set_add x s) = insert x (set s)"
  by (auto simp: Set_add_def)

section \<open>The steps of the loop body preserve the invariants\<close>

lemma addNote_frame:
  "length (heap (addNote f n st)) = length (heap st)"
  "allNodes (addNote f n st) = allNodes st"
  "tree (addNote f n st) = tree st"
  "caseMap (addNote f n st) = caseMap st"
  "r < length (heap st) \<Longrightarrow> path (heap (addNote f n st) ! r) = path (heap st ! r)"
  "r < length (heap st) \<Longrightarrow> name (heap (addNote f n st) ! r) = name (heap st ! r)"
  "r < length (heap st) \<Longrightarrow> children (heap (addNote f n st) ! r) = children (heap st ! r)"
  "r < length (heap st) \<Longrightarrow> notesWithTag (heap (addNote f n st) ! r)
     = (if r = n then Set_add f (notesWithTag (heap st ! r)) else notesWithTag (heap st ! r))"
  by (cases "n < length (heap st)"; simp add: addNote_def nth_list_update)+

lemma addNote_index_sound: "index_sound st \<Longrightarrow> index_sound (addNote f n st)"
  unfolding index_sound_def by (simp add: addNote_frame)

lemma addNote_index_complete: "index_complete st \<Longrightarrow> index_complete (addNote f n st)"
  unfolding index_complete_def by (simp add: addNote_frame)

lemma addNote_roots_ok: "roots_ok st \<Longrightarrow> roots_ok (addNote f n st)"
  unfolding roots_ok_def by (simp add: addNote_frame)

lemma addNote_children_ok: "children_ok st \<Longrightarrow> children_ok (addNote f n st)"
  unfolding children_ok_def by (simp add: addNote_frame)

lemma addNote_notes_ok: "notes_ok st \<Longrightarrow> notes_ok (addNote f n st)"
  unfolding notes_ok_def by (simp add: addNote_frame distinct_Set_add)

lemma addNote_names_ok: "names_ok st \<Longrightarrow> names_ok (addNote f n st)"
  unfolding names_ok_def by (simp add: addNote_frame)

lemma addNote_wf: "wf_state st \<Longrightarrow> wf_state (addNote f n st)"
  unfolding wf_state_def
  by (simp add: addNote_index_sound addNote_index_complete addNote_roots_ok
      addNote_children_ok addNote_notes_ok addNote_names_ok)

lemma addNote_linked:
  assumes "linked_except X st" and "index_sound st"
  shows "linked_except X (addNote f n st)"
  unfolding linked_except_def
proof (intro allI impI)
  fix k r
  assume a: "map_of (allNodes (addNote f n st)) k = Some r" and s: "CHR ''/'' \<in> set k" and x: "k \<notin> X"
  from a have a': "map_of (allNodes st) k = Some r" by (simp add: addNote_frame)
  with assms(1) s x obtain pk seg pr where d: "k = pk @ CHR ''/'' # seg" "CHR ''/'' \<notin> set seg"
      "map_of (allNodes st) pk = Some pr" "map_of (children (heap st ! pr)) k = Some r"
    unfolding linked_except_def by blast
  from d(3) assms(2) have "pr < length (heap st)" unfolding index_sound_def by blast
  with d show "\<exists>pk seg pr. k = pk @ CHR ''/'' # seg \<and> CHR ''/'' \<notin> set seg \<and>
      map_of (allNodes (addNote f n st)) pk = Some pr \<and>
      map_of (children (heap (addNote f n st) ! pr)) k = Some r"
    by (intro exI [of _ pk] exI [of _ seg] exI [of _ pr]) (simp add: addNote_frame)
qed


lemma getOrCreateNode_existing:
  "map_of (allNodes st) k = Some node \<Longrightarrow> getOrCreateNode i part cp k st = (node, st)"
  by (simp add: getOrCreateNode_def Map_get_def)

lemma getOrCreateNode_new:
  assumes "map_of (allNodes st) k = None" and "getOrCreateNode i part cp k st = (node, st')"
  shows "node = length (heap st)"
    and "heap st' = heap st @ [\<lparr>name = part, path = cp, children = [], notesWithTag = []\<rparr>]"
    and "allNodes st' = Map_set k (length (heap st)) (allNodes st)"
    and "tree st' = (if i = 0 then Map_set k (length (heap st)) (tree st) else tree st)"
    and "caseMap st' = caseMap st"
  using assms by (auto simp: getOrCreateNode_def Map_get_def Let_def)

lemma new_node_index_sound:
  assumes "index_sound st" and "heap st' = heap st @ [nd]"
    and "allNodes st' = Map_set k (length (heap st)) (allNodes st)"
    and "toLowerCase (path nd) = k"
  shows "index_sound st'"
  unfolding index_sound_def
proof (intro allI impI)
  fix k' r
  assume a: "map_of (allNodes st') k' = Some r"
  show "r < length (heap st') \<and> toLowerCase (path (heap st' ! r)) = k'"
  proof (cases "k' = k")
    case True
    with a assms(3) have "r = length (heap st)" by (simp add: map_of_Map_set)
    with True assms(2,4) show ?thesis by simp
  next
    case False
    with a assms(3) have "map_of (allNodes st) k' = Some r" by (simp add: map_of_Map_set)
    with assms(1) have "r < length (heap st) \<and> toLowerCase (path (heap st ! r)) = k'"
      unfolding index_sound_def by blast
    with assms(2) show ?thesis by (simp add: nth_append)
  qed
qed

lemma new_node_index_complete:
  assumes "index_complete st" and "heap st' = heap st @ [nd]"
    and "allNodes st' = Map_set k (length (heap st)) (allNodes st)"
    and "toLowerCase (path nd) = k" and "map_of (allNodes st) k = None"
  shows "index_complete st'"
  unfolding index_complete_def
proof (intro allI impI)
  fix r
  assume r: "r < length (heap st')"
  show "map_of (allNodes st') (toLowerCase (path (heap st' ! r))) = Some r"
  proof (cases "r < length (heap st)")
    case True
    with assms(1) have i: "map_of (allNodes st) (toLowerCase (path (heap st ! r))) = Some r"
      unfolding index_complete_def by blast
    with assms(5) have "toLowerCase (path (heap st ! r)) \<noteq> k" by auto
    with i True assms(2,3) show ?thesis by (simp add: map_of_Map_set nth_append)
  next
    case False
    with r assms(2) have "r = length (heap st)" by simp
    with assms(2,3,4) show ?thesis by (simp add: map_of_Map_set)
  qed
qed

lemma new_node_roots_ok:
  assumes "roots_ok st"
    and "allNodes st' = Map_set k n (allNodes st)"
    and "tree st' = (if CHR ''/'' \<in> set k then tree st else Map_set k n (tree st))"
  shows "roots_ok st'"
  using assms unfolding roots_ok_def
  by (auto simp: map_of_Map_set distinct_Map_set)

lemma new_node_children_ok:
  assumes "children_ok st" and "heap st' = heap st @ [nd]" and "children nd = []"
    and "allNodes st' = Map_set k (length (heap st)) (allNodes st)"
    and "map_of (allNodes st) k = None"
  shows "children_ok st'"
  unfolding children_ok_def
proof (intro allI impI)
  fix r
  assume r: "r < length (heap st')"
  show "distinct (map fst (children (heap st' ! r))) \<and>
     (\<forall>k' c. map_of (children (heap st' ! r)) k' = Some c \<longrightarrow>
        map_of (allNodes st') k' = Some c \<and> r < c \<and>
        (\<exists>seg. CHR ''/'' \<notin> set seg \<and> k' = toLowerCase (path (heap st' ! r)) @ CHR ''/'' # seg))"
  proof (cases "r < length (heap st)")
    case True
    then have e: "heap st' ! r = heap st ! r" using assms(2) by (simp add: nth_append)
    from assms(1) True have c: "distinct (map fst (children (heap st ! r)))"
      and d: "\<And>k' c. map_of (children (heap st ! r)) k' = Some c \<Longrightarrow>
        map_of (allNodes st) k' = Some c \<and> r < c \<and>
        (\<exists>seg. CHR ''/'' \<notin> set seg \<and> k' = toLowerCase (path (heap st ! r)) @ CHR ''/'' # seg)"
      unfolding children_ok_def by blast+
    show ?thesis unfolding e
    proof (intro conjI allI impI)
      show "distinct (map fst (children (heap st ! r)))" by (rule c)
    next
      fix k' c assume m: "map_of (children (heap st ! r)) k' = Some c"
      from d [OF m] assms(5) have "k' \<noteq> k" by auto
      with d [OF m] assms(4) show "map_of (allNodes st') k' = Some c"
        by (simp add: map_of_Map_set)
    next
      fix k' c assume m: "map_of (children (heap st ! r)) k' = Some c"
      from d [OF m] show "r < c" by simp
    next
      fix k' c assume m: "map_of (children (heap st ! r)) k' = Some c"
      from d [OF m] show "\<exists>seg. CHR ''/'' \<notin> set seg \<and> k' = toLowerCase (path (heap st ! r)) @ CHR ''/'' # seg"
        by simp
    qed
  next
    case False
    with r assms(2) have "r = length (heap st)" by simp
    with assms(2,3) show ?thesis by simp
  qed
qed

lemma new_node_notes_ok:
  assumes "notes_ok st" and "heap st' = heap st @ [nd]" and "notesWithTag nd = []"
  shows "notes_ok st'"
  using assms unfolding notes_ok_def by (auto simp: nth_append)

lemma new_node_names_ok:
  assumes "names_ok st" and "heap st' = heap st @ [nd]"
    and "name nd = last (split CHR ''/'' (path nd))"
  shows "names_ok st'"
  using assms unfolding names_ok_def by (auto simp: nth_append)

lemma new_node_linked:
  assumes "linked_except X st" and "index_sound st" and "heap st' = heap st @ [nd]"
    and "allNodes st' = Map_set k (length (heap st)) (allNodes st)"
    and "map_of (allNodes st) k = None"
  shows "linked_except (insert k X) st'"
  unfolding linked_except_def
proof (intro allI impI)
  fix k' r
  assume a: "map_of (allNodes st') k' = Some r" and s: "CHR ''/'' \<in> set k'" and x: "k' \<notin> insert k X"
  from a x assms(4) have a': "map_of (allNodes st) k' = Some r" by (simp add: map_of_Map_set)
  with assms(1) s x obtain pk seg pr where d: "k' = pk @ CHR ''/'' # seg" "CHR ''/'' \<notin> set seg"
      "map_of (allNodes st) pk = Some pr" "map_of (children (heap st ! pr)) k' = Some r"
    unfolding linked_except_def by blast
  from d(3) assms(2) have p: "pr < length (heap st)" unfolding index_sound_def by blast
  from d(3) assms(5) have "pk \<noteq> k" by auto
  with d p assms(3,4) show "\<exists>pk seg pr. k' = pk @ CHR ''/'' # seg \<and> CHR ''/'' \<notin> set seg \<and>
      map_of (allNodes st') pk = Some pr \<and> map_of (children (heap st' ! pr)) k' = Some r"
    by (intro exI [of _ pk] exI [of _ seg] exI [of _ pr]) (simp add: map_of_Map_set nth_append)
qed


lemma nth_update_at:
  "r < length xs \<Longrightarrow> (xs[n := v]) ! r = (if r = n then v else xs ! r)"
  by (cases "r = n") simp_all

lemma linkToParent_frame:
  "length (heap (linkToParent parts i k node st)) = length (heap st)"
  "allNodes (linkToParent parts i k node st) = allNodes st"
  "tree (linkToParent parts i k node st) = tree st"
  "caseMap (linkToParent parts i k node st) = caseMap st"
  "r < length (heap st) \<Longrightarrow> path (heap (linkToParent parts i k node st) ! r) = path (heap st ! r)"
  "r < length (heap st) \<Longrightarrow> name (heap (linkToParent parts i k node st) ! r) = name (heap st ! r)"
  "r < length (heap st) \<Longrightarrow> notesWithTag (heap (linkToParent parts i k node st) ! r)
     = notesWithTag (heap st ! r)"
  by (auto simp: linkToParent_def Let_def nth_update_at split: option.splits)

lemma linkToParent_children:
  assumes "map_of (allNodes st) (toLowerCase (join CHR ''/'' (take i parts))) = Some pr"
    and "r < length (heap st)"
  shows "children (heap (linkToParent parts i k node st) ! r)
     = (if r = pr \<and> map_of (children (heap st ! pr)) k = None
        then Map_set k node (children (heap st ! pr)) else children (heap st ! r))"
  using assms by (auto simp: linkToParent_def Let_def Map_get_def Map_has_def nth_update_at)

lemma linkToParent_index_sound: "index_sound st \<Longrightarrow> index_sound (linkToParent parts i k node st)"
  unfolding index_sound_def by (simp add: linkToParent_frame)

lemma linkToParent_index_complete:
  "index_complete st \<Longrightarrow> index_complete (linkToParent parts i k node st)"
  unfolding index_complete_def by (simp add: linkToParent_frame)

lemma linkToParent_roots_ok: "roots_ok st \<Longrightarrow> roots_ok (linkToParent parts i k node st)"
  unfolding roots_ok_def by (simp add: linkToParent_frame)

lemma linkToParent_notes_ok: "notes_ok st \<Longrightarrow> notes_ok (linkToParent parts i k node st)"
  unfolding notes_ok_def by (simp add: linkToParent_frame)

lemma linkToParent_names_ok: "names_ok st \<Longrightarrow> names_ok (linkToParent parts i k node st)"
  unfolding names_ok_def by (simp add: linkToParent_frame)

lemma linkToParent_children_ok:
  assumes "children_ok st" and "index_sound st"
    and pk: "map_of (allNodes st) (toLowerCase (join CHR ''/'' (take i parts))) = Some pr"
    and nd: "map_of (allNodes st) k = Some node"
    and k: "k = toLowerCase (join CHR ''/'' (take i parts)) @ CHR ''/'' # seg" "CHR ''/'' \<notin> set seg"
    and lt: "map_of (children (heap st ! pr)) k \<noteq> None \<or> pr < node"
  shows "children_ok (linkToParent parts i k node st)"
  unfolding children_ok_def
proof (intro allI impI)
  fix r
  let ?st' = "linkToParent parts i k node st"
  assume "r < length (heap ?st')"
  then have r: "r < length (heap st)" by (simp add: linkToParent_frame)
  from assms(1) r have c: "distinct (map fst (children (heap st ! r)))"
    and d: "\<And>k' c. map_of (children (heap st ! r)) k' = Some c \<Longrightarrow>
      map_of (allNodes st) k' = Some c \<and> r < c \<and>
      (\<exists>seg. CHR ''/'' \<notin> set seg \<and> k' = toLowerCase (path (heap st ! r)) @ CHR ''/'' # seg)"
    unfolding children_ok_def by blast+
  from pk assms(2) have pkey: "toLowerCase (path (heap st ! pr)) = toLowerCase (join CHR ''/'' (take i parts))"
    unfolding index_sound_def by blast
  show "distinct (map fst (children (heap ?st' ! r))) \<and>
     (\<forall>k' c. map_of (children (heap ?st' ! r)) k' = Some c \<longrightarrow>
        map_of (allNodes ?st') k' = Some c \<and> r < c \<and>
        (\<exists>seg. CHR ''/'' \<notin> set seg \<and> k' = toLowerCase (path (heap ?st' ! r)) @ CHR ''/'' # seg))"
  proof (cases "r = pr \<and> map_of (children (heap st ! pr)) k = None")
    case False
    then have e: "children (heap ?st' ! r) = children (heap st ! r)"
      using linkToParent_children [OF pk r] by auto
    show ?thesis unfolding e using c d r by (simp add: linkToParent_frame)
  next
    case True
    then have e: "children (heap ?st' ! r) = Map_set k node (children (heap st ! r))"
      using linkToParent_children [OF pk r] by auto
    from True lt have lt': "r < node" by auto
    show ?thesis unfolding e
    proof (intro conjI allI impI)
      show "distinct (map fst (Map_set k node (children (heap st ! r))))"
        using c by (rule distinct_Map_set)
    next
      fix k' c assume m: "map_of (Map_set k node (children (heap st ! r))) k' = Some c"
      show "map_of (allNodes ?st') k' = Some c"
      proof (cases "k' = k")
        case True with m nd show ?thesis by (simp add: map_of_Map_set linkToParent_frame)
      next
        case False with m d [of k' c] show ?thesis by (simp add: map_of_Map_set linkToParent_frame)
      qed
    next
      fix k' c assume m: "map_of (Map_set k node (children (heap st ! r))) k' = Some c"
      show "r < c"
      proof (cases "k' = k")
        case True with m lt' show ?thesis by (simp add: map_of_Map_set)
      next
        case False with m d [of k' c] show ?thesis by (simp add: map_of_Map_set)
      qed
    next
      fix k' c assume m: "map_of (Map_set k node (children (heap st ! r))) k' = Some c"
      show "\<exists>seg. CHR ''/'' \<notin> set seg \<and> k' = toLowerCase (path (heap ?st' ! r)) @ CHR ''/'' # seg"
      proof (cases "k' = k")
        case k': True
        from True pkey have "toLowerCase (path (heap st ! r)) = toLowerCase (join CHR ''/'' (take i parts))"
          by simp
        with k k' r show ?thesis by (intro exI [of _ seg]) (simp add: linkToParent_frame)
      next
        case False with m d [of k' c] r show ?thesis by (simp add: map_of_Map_set linkToParent_frame)
      qed
    qed
  qed
qed

lemma linkToParent_linked:
  assumes "linked_except (insert k X) st" and "index_sound st" and "children_ok st"
    and pk: "map_of (allNodes st) (toLowerCase (join CHR ''/'' (take i parts))) = Some pr"
    and nd: "map_of (allNodes st) k = Some node"
    and k: "k = toLowerCase (join CHR ''/'' (take i parts)) @ CHR ''/'' # seg" "CHR ''/'' \<notin> set seg"
  shows "linked_except X (linkToParent parts i k node st)"
  unfolding linked_except_def
proof (intro allI impI)
  fix k' r
  let ?st' = "linkToParent parts i k node st"
  let ?pk = "toLowerCase (join CHR ''/'' (take i parts))"
  assume a: "map_of (allNodes ?st') k' = Some r" and s: "CHR ''/'' \<in> set k'" and x: "k' \<notin> X"
  from a have a': "map_of (allNodes st) k' = Some r" by (simp add: linkToParent_frame)
  from pk assms(2) have prl: "pr < length (heap st)" unfolding index_sound_def by blast
  show "\<exists>pk seg pr. k' = pk @ CHR ''/'' # seg \<and> CHR ''/'' \<notin> set seg \<and>
      map_of (allNodes ?st') pk = Some pr \<and> map_of (children (heap ?st' ! pr)) k' = Some r"
  proof (cases "k' = k")
    case True
    with a' nd have rn: "r = node" by simp
    have "map_of (children (heap ?st' ! pr)) k = Some node"
    proof (cases "map_of (children (heap st ! pr)) k")
      case None
      then show ?thesis using linkToParent_children [OF pk prl] by (simp add: map_of_Map_set)
    next
      case (Some c)
      with assms(3) prl have "map_of (allNodes st) k = Some c" unfolding children_ok_def by blast
      with nd Some show ?thesis using linkToParent_children [OF pk prl] by simp
    qed
    with True rn k pk show ?thesis
      by (intro exI [of _ ?pk] exI [of _ seg] exI [of _ pr]) (simp add: linkToParent_frame)
  next
    case False
    with a' s x assms(1) obtain pk' seg' pr' where d: "k' = pk' @ CHR ''/'' # seg'"
        "CHR ''/'' \<notin> set seg'" "map_of (allNodes st) pk' = Some pr'"
        "map_of (children (heap st ! pr')) k' = Some r"
      unfolding linked_except_def by blast
    from d(3) assms(2) have p: "pr' < length (heap st)" unfolding index_sound_def by blast
    have "map_of (children (heap ?st' ! pr')) k' = Some r"
      using linkToParent_children [OF pk p, of k node] d(4) False by (auto simp: map_of_Map_set)
    with d show ?thesis
      by (intro exI [of _ pk'] exI [of _ seg'] exI [of _ pr']) (simp add: linkToParent_frame)
  qed
qed

lemma linked_except_mono: "linked_except X st \<Longrightarrow> X \<subseteq> Y \<Longrightarrow> linked_except Y st"
  unfolding linked_except_def by blast

lemma linked_except_no_slash:
  "linked_except (insert k X) st \<Longrightarrow> CHR ''/'' \<notin> set k \<Longrightarrow> linked_except X st"
  unfolding linked_except_def by blast

lemma partsBody_unfold:
  "partsBody f parts i c st =
     (case getOrCreateNode i (parts ! i) (if i = 0 then parts ! i else c @ CHR ''/'' # parts ! i)
             (toLowerCase (if i = 0 then parts ! i else c @ CHR ''/'' # parts ! i)) st of
        (node, st1) \<Rightarrow>
          ((if i = 0 then parts ! i else c @ CHR ''/'' # parts ! i),
           (if 0 < i then linkToParent parts i
                (toLowerCase (if i = 0 then parts ! i else c @ CHR ''/'' # parts ! i)) node else id)
             ((if i = length parts - 1 then addNote f node else id) st1)))"
  by (simp add: partsBody_def Let_def split: prod.splits)

lemma new_node_wf:
  assumes "wf_state st" and "map_of (allNodes st) k = None"
    and "getOrCreateNode i part cp k st = (node, st')"
    and "toLowerCase cp = k" and "i = 0 \<longleftrightarrow> CHR ''/'' \<notin> set k"
    and "part = last (split CHR ''/'' cp)"
  shows "wf_state st'"
proof -
  note n = getOrCreateNode_new [OF assms(2,3)]
  let ?nd = "\<lparr>name = part, path = cp, children = [], notesWithTag = []\<rparr>"
  from assms(1) have w: "index_sound st" "index_complete st" "roots_ok st" "children_ok st"
    "notes_ok st" "names_ok st" unfolding wf_state_def by simp_all
  have 1: "index_sound st'"
    using new_node_index_sound [OF w(1) n(2) n(3)] assms(4) by simp
  have 2: "index_complete st'"
    using new_node_index_complete [OF w(2) n(2) n(3) _ assms(2)] assms(4) by simp
  have t: "tree st' = (if CHR ''/'' \<in> set k then tree st else Map_set k (length (heap st)) (tree st))"
    using n(4) assms(5) by auto
  have 3: "roots_ok st'" using new_node_roots_ok [OF w(3) n(3) t] .
  have 4: "children_ok st'" using new_node_children_ok [OF w(4) n(2) _ n(3) assms(2)] by simp
  have 5: "notes_ok st'" using new_node_notes_ok [OF w(5) n(2)] by simp
  have 6: "names_ok st'" using new_node_names_ok [OF w(6) n(2)] assms(6) by simp
  from 1 2 3 4 5 6 show ?thesis unfolding wf_state_def by simp
qed

lemma linkToParent_wf:
  assumes "wf_state st"
    and pk: "map_of (allNodes st) (toLowerCase (join CHR ''/'' (take i parts))) = Some pr"
    and nd: "map_of (allNodes st) k = Some node"
    and k: "k = toLowerCase (join CHR ''/'' (take i parts)) @ CHR ''/'' # seg" "CHR ''/'' \<notin> set seg"
    and lt: "map_of (children (heap st ! pr)) k \<noteq> None \<or> pr < node"
  shows "wf_state (linkToParent parts i k node st)"
proof -
  from assms(1) have w: "index_sound st" "index_complete st" "roots_ok st" "children_ok st"
    "notes_ok st" "names_ok st" unfolding wf_state_def by simp_all
  show ?thesis unfolding wf_state_def
    using linkToParent_index_sound [OF w(1)] linkToParent_index_complete [OF w(2)]
      linkToParent_roots_ok [OF w(3)] linkToParent_notes_ok [OF w(5)]
      linkToParent_names_ok [OF w(6)]
      linkToParent_children_ok [OF w(4) w(1) pk nd k lt]
    by simp
qed

lemma partsBody_preserves:
  assumes wf: "wf_state st" and ln: "linked_except {} st" and i: "i < length parts"
    and sf: "\<forall>p \<in> set parts. CHR ''/'' \<notin> set p"
    and cur: "0 < i \<longrightarrow> c = join CHR ''/'' (take i parts)
                \<and> map_of (allNodes st) (toLowerCase c) \<noteq> None"
    and body: "partsBody f parts i c st = (c', st')"
  shows "wf_state st' \<and> linked_except {} st' \<and> c' = join CHR ''/'' (take (Suc i) parts)
       \<and> map_of (allNodes st') (toLowerCase c') \<noteq> None"
proof -
  define part where "part = parts ! i"
  define cp where "cp = (if i = 0 then part else c @ CHR ''/'' # part)"
  define k where "k = toLowerCase cp"
  from wf have w: "index_sound st" "index_complete st" "roots_ok st" "children_ok st"
    "notes_ok st" "names_ok st" unfolding wf_state_def by simp_all
  from i sf have psf: "CHR ''/'' \<notin> set part" by (simp add: part_def)
  have cp: "cp = join CHR ''/'' (take (Suc i) parts)"
    using join_take_Suc [OF i, of "CHR ''/''"] cur by (auto simp: cp_def part_def)
  have k0: "i = 0 \<longleftrightarrow> CHR ''/'' \<notin> set k"
    using psf by (auto simp: slash_in_toLowerCase k_def cp_def)
  have kpos: "0 < i \<Longrightarrow> k = toLowerCase c @ CHR ''/'' # toLowerCase part"
    by (simp add: k_def cp_def toLowerCase_append toLowerCase_Cons_slash)
  have ksf: "CHR ''/'' \<notin> set (toLowerCase part)" using psf by (simp add: slash_in_toLowerCase)
  have nm: "part = last (split CHR ''/'' cp)"
    using psf by (auto simp: split_no_sep split_append_sep cp_def)
  obtain node st1 where g: "getOrCreateNode i part cp k st = (node, st1)"
    by (cases "getOrCreateNode i part cp k st")
  define st2 where "st2 = (if i = length parts - 1 then addNote f node st1 else st1)"
  define st3 where "st3 = (if 0 < i then linkToParent parts i k node st2 else st2)"
  from body g have c': "c' = cp" and st': "st' = st3"
    by (auto simp: partsBody_unfold part_def cp_def k_def st2_def st3_def)
  have main: "wf_state st1 \<and> linked_except {k} st1 \<and> map_of (allNodes st1) k = Some node
      \<and> (\<forall>k' r. map_of (allNodes st) k' = Some r \<longrightarrow> map_of (allNodes st1) k' = Some r)
      \<and> (0 < i \<longrightarrow> (\<forall>pr. map_of (allNodes st1) (toLowerCase c) = Some pr \<longrightarrow>
            map_of (children (heap st1 ! pr)) k \<noteq> None \<or> pr < node))"
  proof (cases "map_of (allNodes st) k")
    case (Some n)
    from g getOrCreateNode_existing [OF Some, of i part cp] have e: "node = n" "st1 = st" by simp_all
    have "0 < i \<longrightarrow> (\<forall>pr. map_of (allNodes st) (toLowerCase c) = Some pr \<longrightarrow>
            map_of (children (heap st ! pr)) k \<noteq> None)"
    proof (intro impI allI)
      fix pr assume i0: "0 < i" and pr: "map_of (allNodes st) (toLowerCase c) = Some pr"
      from i0 k0 have sl: "CHR ''/'' \<in> set k" by simp
      from ln Some sl obtain pk' seg' pr' where d: "k = pk' @ CHR ''/'' # seg'"
          "CHR ''/'' \<notin> set seg'" "map_of (allNodes st) pk' = Some pr'"
          "map_of (children (heap st ! pr')) k = Some n"
        unfolding linked_except_def by blast
      from d(1) kpos [OF i0] have "pk' @ CHR ''/'' # seg' = toLowerCase c @ CHR ''/'' # toLowerCase part"
        by simp
      from slash_decomp_unique [OF this d(2) ksf] have "pk' = toLowerCase c" by simp
      with d(3) pr have "pr' = pr" by simp
      with d(4) show "map_of (children (heap st ! pr)) k \<noteq> None" by simp
    qed
    moreover have "linked_except {k} st" using linked_except_mono [OF ln] by simp
    ultimately show ?thesis using e wf Some by simp
  next
    case None
    note n = getOrCreateNode_new [OF None g]
    have 1: "wf_state st1" using new_node_wf [OF wf None g _ k0 nm] by (simp add: k_def)
    have 2: "linked_except {k} st1"
      using new_node_linked [OF ln w(1) n(2) n(3) None] by simp
    have 3: "map_of (allNodes st1) k = Some node" using n(1,3) by (simp add: map_of_Map_set)
    have 4: "\<forall>k' r. map_of (allNodes st) k' = Some r \<longrightarrow> map_of (allNodes st1) k' = Some r"
      using n(3) None by (auto simp: map_of_Map_set)
    have 5: "0 < i \<longrightarrow> (\<forall>pr. map_of (allNodes st1) (toLowerCase c) = Some pr \<longrightarrow> pr < node)"
    proof (intro impI allI)
      fix pr assume i0: "0 < i" and pr: "map_of (allNodes st1) (toLowerCase c) = Some pr"
      from kpos [OF i0] have "length (toLowerCase c) < length k" by simp
      then have "toLowerCase c \<noteq> k" by auto
      with pr n(3) have "map_of (allNodes st) (toLowerCase c) = Some pr" by (simp add: map_of_Map_set)
      with w(1) n(1) show "pr < node" unfolding index_sound_def by auto
    qed
    from 1 2 3 4 5 show ?thesis by blast
  qed
  then have m1: "wf_state st1" and m2: "linked_except {k} st1"
    and m3: "map_of (allNodes st1) k = Some node"
    and m4: "\<And>k' r. map_of (allNodes st) k' = Some r \<Longrightarrow> map_of (allNodes st1) k' = Some r"
    and m5: "\<And>pr. 0 < i \<Longrightarrow> map_of (allNodes st1) (toLowerCase c) = Some pr \<Longrightarrow>
            map_of (children (heap st1 ! pr)) k \<noteq> None \<or> pr < node"
    by blast+
  from m1 have is1: "index_sound st1" unfolding wf_state_def by simp
  have s2: "wf_state st2" using m1 by (simp add: addNote_wf st2_def)
  have l2: "linked_except {k} st2" using m2 is1 by (simp add: addNote_linked st2_def)
  have a2: "allNodes st2 = allNodes st1" by (simp add: addNote_frame st2_def)
  have final: "wf_state st3 \<and> linked_except {} st3 \<and> allNodes st3 = allNodes st1"
  proof (cases "0 < i")
    case False
    with k0 have "CHR ''/'' \<notin> set k" by simp
    from linked_except_no_slash [OF l2 this] s2 a2 False show ?thesis by (simp add: st3_def)
  next
    case True
    with cur obtain pr where pr0: "map_of (allNodes st) (toLowerCase c) = Some pr"
      and cj: "c = join CHR ''/'' (take i parts)" by auto
    from m4 [OF pr0] have pr1: "map_of (allNodes st1) (toLowerCase c) = Some pr" .
    have pk: "map_of (allNodes st2) (toLowerCase (join CHR ''/'' (take i parts))) = Some pr"
      using pr1 cj a2 by simp
    have nd: "map_of (allNodes st2) k = Some node" using m3 a2 by simp
    have kk: "k = toLowerCase (join CHR ''/'' (take i parts)) @ CHR ''/'' # toLowerCase part"
      using kpos [OF True] cj by simp
    from is1 pr1 have prl: "pr < length (heap st1)" unfolding index_sound_def by blast
    have "children (heap st2 ! pr) = children (heap st1 ! pr)"
      using prl by (simp add: addNote_frame st2_def)
    then have lt: "map_of (children (heap st2 ! pr)) k \<noteq> None \<or> pr < node"
      using m5 [OF True pr1] by simp
    from s2 have w2: "index_sound st2" "children_ok st2" unfolding wf_state_def by simp_all
    have "wf_state (linkToParent parts i k node st2)"
      using linkToParent_wf [OF s2 pk nd kk ksf lt] .
    moreover have "linked_except {} (linkToParent parts i k node st2)"
      using linkToParent_linked [OF l2 w2 pk nd kk ksf] .
    ultimately show ?thesis using True a2 by (simp add: linkToParent_frame st3_def)
  qed
  have "map_of (allNodes st1) (toLowerCase c') \<noteq> None" using m3 c' by (simp add: k_def)
  with final c' st' cp show ?thesis by simp
qed

section \<open>The build establishes the invariants\<close>

lemma wf_state_caseMap [simp]: "wf_state (st\<lparr>caseMap := m\<rparr>) = wf_state st"
  unfolding wf_state_def index_sound_def index_complete_def roots_ok_def children_ok_def
    notes_ok_def names_ok_def by simp

lemma linked_except_caseMap [simp]: "linked_except X (st\<lparr>caseMap := m\<rparr>) = linked_except X st"
  unfolding linked_except_def by simp

lemma wf_state_untaggedCount [simp]: "wf_state (st\<lparr>untaggedCount := m\<rparr>) = wf_state st"
  unfolding wf_state_def index_sound_def index_complete_def roots_ok_def children_ok_def
    notes_ok_def names_ok_def by simp

lemma linked_except_untaggedCount [simp]:
  "linked_except X (st\<lparr>untaggedCount := m\<rparr>) = linked_except X st"
  unfolding linked_except_def by simp

lemma partsLoop_wf:
  assumes "wf_state st" and "linked_except {} st" and sf: "\<forall>p \<in> set parts. CHR ''/'' \<notin> set p"
  shows "wf_state (partsLoop f parts 0 c st) \<and> linked_except {} (partsLoop f parts 0 c st)"
proof (rule partsLoop_invariant [where P = "\<lambda>i c s. wf_state s \<and> linked_except {} s \<and>
    (0 < i \<longrightarrow> c = join CHR ''/'' (take i parts) \<and> map_of (allNodes s) (toLowerCase c) \<noteq> None)"])
  show "0 \<le> length parts" by simp
  show "wf_state st \<and> linked_except {} st \<and>
    (0 < (0::nat) \<longrightarrow> c = join CHR ''/'' (take 0 parts) \<and> map_of (allNodes st) (toLowerCase c) \<noteq> None)"
    using assms by simp
next
  fix j c s c' s'
  assume j: "j < length parts"
    and p: "wf_state s \<and> linked_except {} s \<and>
      (0 < j \<longrightarrow> c = join CHR ''/'' (take j parts) \<and> map_of (allNodes s) (toLowerCase c) \<noteq> None)"
    and b: "partsBody f parts j c s = (c', s')"
  from p have 1: "wf_state s" and 2: "linked_except {} s"
    and 3: "0 < j \<longrightarrow> c = join CHR ''/'' (take j parts) \<and> map_of (allNodes s) (toLowerCase c) \<noteq> None"
    by blast+
  from partsBody_preserves [OF 1 2 j sf 3 b]
  show "wf_state s' \<and> linked_except {} s' \<and>
      (0 < Suc j \<longrightarrow> c' = join CHR ''/'' (take (Suc j) parts) \<and> map_of (allNodes s') (toLowerCase c') \<noteq> None)"
    by blast
next
  fix c' s'
  assume "wf_state s' \<and> linked_except {} s' \<and>
    (0 < length parts \<longrightarrow> c' = join CHR ''/'' (take (length parts) parts)
       \<and> map_of (allNodes s') (toLowerCase c') \<noteq> None)"
  then show "wf_state s' \<and> linked_except {} s'" by simp
qed

lemma processTag_unfold:
  "\<exists>c m. processTag f tag st = partsLoop f (split CHR ''/'' c) 0 [] (st\<lparr>caseMap := m\<rparr>)"
proof -
  let ?t = "stripHash tag"
  let ?m = "Map_set (toLowerCase ?t) ?t (caseMap st)"
  have new: "processTag f tag st = partsLoop f (split CHR ''/'' ?t) 0 [] (st\<lparr>caseMap := ?m\<rparr>)"
    if "Map_get (caseMap st) (toLowerCase ?t) = None \<or> Map_get (caseMap st) (toLowerCase ?t) = Some []"
    using that unfolding processTag_def Let_def by auto
  have old: "processTag f tag st = partsLoop f (split CHR ''/'' c) 0 [] (st\<lparr>caseMap := caseMap st\<rparr>)"
    if "Map_get (caseMap st) (toLowerCase ?t) = Some c" and "c \<noteq> []" for c
    using that unfolding processTag_def Let_def by simp
  show ?thesis
  proof (cases "Map_get (caseMap st) (toLowerCase ?t)")
    case None
    with new show ?thesis by blast
  next
    case (Some c)
    show ?thesis
    proof (cases "c = []")
      case True
      with Some new show ?thesis by blast
    next
      case False
      from old [OF Some False] show ?thesis by blast
    qed
  qed
qed

lemma processTag_wf:
  assumes "wf_state st" and "linked_except {} st"
  shows "wf_state (processTag f tag st) \<and> linked_except {} (processTag f tag st)"
proof -
  from processTag_unfold obtain c m
    where e: "processTag f tag st = partsLoop f (split CHR ''/'' c) 0 [] (st\<lparr>caseMap := m\<rparr>)"
    by blast
  have "\<forall>p \<in> set (split CHR ''/'' c). CHR ''/'' \<notin> set p" by (simp add: split_parts_no_sep)
  from partsLoop_wf [OF _ _ this, of "st\<lparr>caseMap := m\<rparr>" f "[]"] assms e show ?thesis by simp
qed

lemma tagsLoop_wf:
  "wf_state st \<Longrightarrow> linked_except {} st
   \<Longrightarrow> wf_state (tagsLoop f ts st) \<and> linked_except {} (tagsLoop f ts st)"
  by (induction ts arbitrary: st) (simp_all add: processTag_wf)

lemma processFile_wf:
  "wf_state st \<Longrightarrow> linked_except {} st
   \<Longrightarrow> wf_state (processFile isEx pats rec st) \<and> linked_except {} (processFile isEx pats rec st)"
  by (cases rec) (simp add: processFile_def tagsLoop_wf split: option.splits)

lemma filesLoop_wf:
  "wf_state st \<Longrightarrow> linked_except {} st
   \<Longrightarrow> wf_state (filesLoop isEx pats files st) \<and> linked_except {} (filesLoop isEx pats files st)"
  by (induction files arbitrary: st) (simp_all add: processFile_wf)

lemma initialState_wf: "wf_state initialState \<and> linked_except {} initialState"
  unfolding wf_state_def index_sound_def index_complete_def roots_ok_def children_ok_def
    notes_ok_def names_ok_def linked_except_def initialState_def by simp

lemma buildState_wf:
  "wf_state (buildState isEx allFiles pats) \<and> linked_except {} (buildState isEx allFiles pats)"
  unfolding buildState_def using initialState_wf by (simp add: filesLoop_wf)

section \<open>Every node is linked into the tree\<close>

lemma toLowerCase_join: "toLowerCase (join CHR ''/'' xs) = join CHR ''/'' (map toLowerCase xs)"
  by (induction "CHR ''/''" xs rule: join.induct)
     (simp_all add: toLowerCase_append toLowerCase_Cons_slash, simp add: toLowerCase_def)

lemma toLowerCase_parentPrefix: "toLowerCase (parentPrefix p) = parentPrefix (toLowerCase p)"
  by (simp add: parentPrefix_def toLowerCase_join split_toLowerCase map_butlast)

lemma parentPrefix_decomp: "CHR ''/'' \<notin> set seg \<Longrightarrow> parentPrefix (pk @ CHR ''/'' # seg) = pk"
  by (simp add: parentPrefix_def split_append_sep split_no_sep join_split)

lemma build_reachable:
  assumes wf: "wf_state st" and ln: "linked_except {} st"
  shows "r < length (heap st) \<Longrightarrow> reachable (heap st) (tree st) r"
proof (induction r rule: less_induct)
  case (less r)
  from wf have w: "index_sound st" "index_complete st" "roots_ok st" "children_ok st"
    unfolding wf_state_def by simp_all
  let ?k = "toLowerCase (path (heap st ! r))"
  from w(2) less.prems have a: "map_of (allNodes st) ?k = Some r"
    unfolding index_complete_def by blast
  show ?case
  proof (cases "CHR ''/'' \<in> set ?k")
    case False
    with w(3) a have "map_of (tree st) ?k = Some r" unfolding roots_ok_def by simp
    then have "(?k, r) \<in> set (tree st)" by (rule map_of_SomeD)
    then show ?thesis by (rule reachable.root)
  next
    case True
    with ln a obtain pk seg pr where d: "map_of (allNodes st) pk = Some pr"
        "map_of (children (heap st ! pr)) ?k = Some r"
      unfolding linked_except_def by blast
    from d(1) w(1) have p: "pr < length (heap st)" unfolding index_sound_def by blast
    with w(4) d(2) have "pr < r" unfolding children_ok_def by blast
    from less.IH [OF this p] have "reachable (heap st) (tree st) pr" .
    moreover from d(2) have "(?k, r) \<in> set (children (heap st ! pr))" by (rule map_of_SomeD)
    ultimately show ?thesis using p by (blast intro: reachable.child)
  qed
qed

lemma build_parent_link:
  assumes wf: "wf_state st" and ln: "linked_except {} st" and r: "r < length (heap st)"
  shows "if CHR ''/'' \<in> set (path (heap st ! r))
         then \<exists>pr < length (heap st).
                toLowerCase (path (heap st ! pr)) = toLowerCase (parentPrefix (path (heap st ! r)))
              \<and> map_of (children (heap st ! pr)) (toLowerCase (path (heap st ! r))) = Some r
         else map_of (tree st) (toLowerCase (path (heap st ! r))) = Some r"
proof -
  from wf have w: "index_sound st" "index_complete st" "roots_ok st" "children_ok st"
    unfolding wf_state_def by simp_all
  let ?k = "toLowerCase (path (heap st ! r))"
  from w(2) r have a: "map_of (allNodes st) ?k = Some r"
    unfolding index_complete_def by blast
  show ?thesis
  proof (cases "CHR ''/'' \<in> set (path (heap st ! r))")
    case False
    then have "CHR ''/'' \<notin> set ?k" by (simp add: slash_in_toLowerCase)
    with w(3) a False show ?thesis unfolding roots_ok_def by simp
  next
    case True
    then have "CHR ''/'' \<in> set ?k" by (simp add: slash_in_toLowerCase)
    with ln a obtain pk seg pr where d: "?k = pk @ CHR ''/'' # seg" "CHR ''/'' \<notin> set seg"
        "map_of (allNodes st) pk = Some pr" "map_of (children (heap st ! pr)) ?k = Some r"
      unfolding linked_except_def by blast
    from d(3) w(1) have p: "pr < length (heap st)" "toLowerCase (path (heap st ! pr)) = pk"
      unfolding index_sound_def by blast+
    have "toLowerCase (parentPrefix (path (heap st ! r))) = pk"
      using parentPrefix_decomp [OF d(2), of pk] d(1) by (simp add: toLowerCase_parentPrefix)
    with p d(4) True show ?thesis by auto
  qed
qed

text \<open>
  One file tagged \<open>#Project/a\<close> and \<open>#project/B\<close>: the node with path \<open>project/B\<close> is a
  child of the node with path \<open>Project\<close>, and no node has the path \<open>project\<close>, the
  immediate ancestor prefix of \<open>project/B\<close>.
\<close>

theorem parent_path_differs_in_case:
  "map path (out_heap (buildTagTreeFromDatabase noExclusion mixedCaseFiles None))
     = [''Project'', ''Project/a'', ''project/B'']
   \<and> map children (out_heap (buildTagTreeFromDatabase noExclusion mixedCaseFiles None))
     = [[(''project/a'', 1), (''project/b'', 2)], [], []]
   \<and> parentPrefix ''project/B'' = ''project''
   \<and> ''project'' \<notin> set (map path (out_heap (buildTagTreeFromDatabase noExclusion mixedCaseFiles None)))"
  by code_simp

text \<open>
  C10, with the parent identified up to letter case. Every node the build has created is
  reachable from the returned tree map along \<open>children\<close>. A node whose path has no slash
  is an entry of the tree map, under its lower-cased path. Any other node is an entry,
  under its own lower-cased path, of the \<open>children\<close> of the node whose lower-cased path is
  the lower-cased immediate ancestor prefix of the node's path. (The parent's path itself
  may differ from that prefix in letter case, as in the example above.)
\<close>

theorem build_nodes_reachable:
  assumes "b = buildTagTreeFromDatabase isEx allFiles pats" and "r < length (out_heap b)"
  shows "reachable (out_heap b) (out_tree b) r
       \<and> (if CHR ''/'' \<in> set (path (out_heap b ! r))
          then \<exists>pr < length (out_heap b).
                 toLowerCase (path (out_heap b ! pr))
                   = toLowerCase (parentPrefix (path (out_heap b ! r)))
               \<and> map_of (children (out_heap b ! pr)) (toLowerCase (path (out_heap b ! r))) = Some r
          else map_of (out_tree b) (toLowerCase (path (out_heap b ! r))) = Some r)"
proof -
  let ?st = "buildState isEx allFiles pats"
  from buildState_wf [of isEx allFiles pats]
  have wf: "wf_state ?st" and ln: "linked_except {} ?st" by simp_all
  from assms have h: "out_heap b = heap ?st" and t: "out_tree b = tree ?st"
    by (simp_all add: buildTagTreeFromDatabase_def Let_def)
  from assms(2) h have r: "r < length (heap ?st)" by simp
  show ?thesis unfolding h t
    using build_reachable [OF wf ln r] build_parent_link [OF wf ln r] by simp
qed

theorem build_nodes_reachable_witness:
  "2 < length (out_heap (buildTagTreeFromDatabase noExclusion mixedCaseFiles None))
   \<and> reachable (out_heap (buildTagTreeFromDatabase noExclusion mixedCaseFiles None))
        (out_tree (buildTagTreeFromDatabase noExclusion mixedCaseFiles None)) 2"
proof -
  have l: "2 < length (out_heap (buildTagTreeFromDatabase noExclusion mixedCaseFiles None))"
    by code_simp
  from build_nodes_reachable [OF refl l] l show ?thesis by simp
qed

section \<open>Properties of the pattern filters\<close>

lemma some_matchesTagPattern_eq:
  "some_matchesTagPattern RegExp_i tagPath patterns
     = Inr (\<exists>pattern \<in> set patterns. fst (matchesTagPattern RegExp_i tagPath pattern) = Inr True)"
proof (induction patterns)
  case Nil
  show ?case by simp
next
  case (Cons p ps)
  from matchesTagPattern_returns [of RegExp_i tagPath p]
  obtain b where b: "fst (matchesTagPattern RegExp_i tagPath p) = Inr b" by blast
  with Cons show ?case by (cases b) simp_all
qed

lemma excludeFromTagTree_loop_eq:
  "distinct (map fst (filtered @ t)) \<Longrightarrow>
   excludeFromTagTree_loop RegExp_i h patterns t filtered
     = Inr (filtered @ filter (\<lambda>(key, node). \<not> (\<exists>pattern \<in> set patterns.
          fst (matchesTagPattern RegExp_i (path (h ! node)) pattern) = Inr True)) t)"
proof (induction t arbitrary: filtered)
  case Nil
  show ?case by simp
next
  case (Cons e t)
  obtain key node where e: "e = (key, node)" by (cases e)
  from Cons.prems have fresh: "key \<notin> fst ` set filtered" by (auto simp: e)
  from Cons.prems have d1: "distinct (map fst (filtered @ t))" by (simp add: e)
  from Cons.prems have d2: "distinct (map fst ((filtered @ [(key, node)]) @ t))" by (simp add: e)
  show ?case
    using Cons.IH [OF d1] Cons.IH [OF d2]
    by (simp add: e some_matchesTagPattern_eq Map_set_fresh [OF fresh])
qed

lemma filterTagTree_prefixes_eq:
  "filterTagTree_prefixes RegExp_i patterns pathParts n
     = Inr (\<exists>j \<in> {1..n}. \<exists>pattern \<in> set patterns.
          fst (matchesTagPattern RegExp_i (join CHR ''/'' (take j pathParts)) pattern) = Inr True)"
proof (induction n)
  case 0
  show ?case by simp
next
  case (Suc n)
  have "{1..Suc n} = insert (Suc n) {1..n}" by auto
  with Suc show ?case by (simp add: some_matchesTagPattern_eq Let_def)
qed

lemma filterTagTree_loop_eq:
  "distinct (map fst (filtered @ t)) \<Longrightarrow>
   filterTagTree_loop RegExp_i h patterns t filtered
     = Inr (filtered @ filter (\<lambda>(key, node).
          \<exists>j \<in> {1..length (split CHR ''/'' (path (h ! node)))}. \<exists>pattern \<in> set patterns.
            fst (matchesTagPattern RegExp_i
              (join CHR ''/'' (take j (split CHR ''/'' (path (h ! node))))) pattern) = Inr True) t)"
proof (induction t arbitrary: filtered)
  case Nil
  show ?case by simp
next
  case (Cons e t)
  obtain key node where e: "e = (key, node)" by (cases e)
  from Cons.prems have fresh: "key \<notin> fst ` set filtered" by (auto simp: e)
  from Cons.prems have d1: "distinct (map fst (filtered @ t))" by (simp add: e)
  from Cons.prems have d2: "distinct (map fst ((filtered @ [(key, node)]) @ t))" by (simp add: e)
  show ?case
    using Cons.IH [OF d1] Cons.IH [OF d2]
    by (simp add: e filterTagTree_prefixes_eq Map_set_fresh [OF fresh] Let_def)
qed

lemma parseTagPatterns_empty: "parseTagPatterns [] = []"
  by (simp add: parseTagPatterns_def trim_def)

lemma build_roots:
  assumes "b = buildTagTreeFromDatabase isEx allFiles pats"
  shows "distinct (map fst (out_tree b))"
    and "(key, node) \<in> set (out_tree b) \<Longrightarrow>
           node < length (out_heap b) \<and> CHR ''/'' \<notin> set (path (out_heap b ! node))
           \<and> key = toLowerCase (path (out_heap b ! node))"
proof -
  let ?st = "buildState isEx allFiles pats"
  from buildState_wf [of isEx allFiles pats]
  have w: "index_sound ?st" "roots_ok ?st" unfolding wf_state_def by simp_all
  from assms have h: "out_heap b = heap ?st" and t: "out_tree b = tree ?st"
    by (simp_all add: buildTagTreeFromDatabase_def Let_def)
  from w(2) show d: "distinct (map fst (out_tree b))" unfolding t roots_ok_def by simp
  assume "(key, node) \<in> set (out_tree b)"
  with d have "map_of (tree ?st) key = Some node" unfolding t by simp
  with w(2) have k: "CHR ''/'' \<notin> set key" and a: "map_of (allNodes ?st) key = Some node"
    unfolding roots_ok_def by (auto split: if_splits)
  from a w(1) have "node < length (heap ?st)" and "toLowerCase (path (heap ?st ! node)) = key"
    unfolding index_sound_def by blast+
  with k show "node < length (out_heap b) \<and> CHR ''/'' \<notin> set (path (out_heap b ! node))
           \<and> key = toLowerCase (path (out_heap b ! node))"
    unfolding h using slash_in_toLowerCase [of "path (heap ?st ! node)"] by auto
qed

lemma topLevelKey_no_slash: "CHR ''/'' \<notin> set p \<Longrightarrow> topLevelKey p = toLowerCase p"
  by (simp add: topLevelKey_def split_no_sep)

lemma topLevelKey_lower: "topLevelKey p = hd (split CHR ''/'' (toLowerCase p))"
  by (simp add: topLevelKey_def split_toLowerCase hd_map split_nonempty)

lemma topLevelKey_child:
  assumes "toLowerCase c = toLowerCase p @ CHR ''/'' # seg"
  shows "topLevelKey c = topLevelKey p"
  using assms by (simp add: topLevelKey_lower split_append_sep split_nonempty)

lemma reachable_top_level:
  assumes wf: "wf_state st" and ln: "linked_except {} st" and sub: "set t \<subseteq> set (tree st)"
    and r: "r < length (heap st)"
  shows "reachable (heap st) t r \<longleftrightarrow> (\<exists>r0. (topLevelKey (path (heap st ! r)), r0) \<in> set t)"
proof
  from wf have w: "index_sound st" "index_complete st" "roots_ok st" "children_ok st"
    unfolding wf_state_def by simp_all
  have root_entry: "k = toLowerCase (path (heap st ! n)) \<and> CHR ''/'' \<notin> set (path (heap st ! n))
      \<and> n < length (heap st)" if "(k, n) \<in> set t" for k n
  proof -
    from that sub have kn: "(k, n) \<in> set (tree st)" by blast
    from w(3) have "distinct (map fst (tree st))" unfolding roots_ok_def by simp
    from map_of_is_SomeI [OF this kn] have m: "map_of (tree st) k = Some n" .
    from w(3) have "map_of (tree st) k = (if CHR ''/'' \<in> set k then None else map_of (allNodes st) k)"
      unfolding roots_ok_def by blast
    with m have k: "CHR ''/'' \<notin> set k" and a: "map_of (allNodes st) k = Some n"
      by (auto split: if_splits)
    from a w(1) have "n < length (heap st)" and "toLowerCase (path (heap st ! n)) = k"
      unfolding index_sound_def by blast+
    with k show ?thesis using slash_in_toLowerCase [of "path (heap st ! n)"] by auto
  qed
  {
    assume "reachable (heap st) t r"
    then show "\<exists>r0. (topLevelKey (path (heap st ! r)), r0) \<in> set t"
    proof (induction rule: reachable.induct)
      case (root k n)
      from root_entry [OF root] have "topLevelKey (path (heap st ! n)) = k"
        by (simp add: topLevelKey_no_slash)
      with root show ?case by blast
    next
      case (child p k c)
      from child.hyps(3) w(4) child.hyps(2)
      have m: "map_of (children (heap st ! p)) k = Some c"
        unfolding children_ok_def by simp
      with w(4) child.hyps(2) obtain seg where a: "map_of (allNodes st) k = Some c"
        and k: "k = toLowerCase (path (heap st ! p)) @ CHR ''/'' # seg"
        unfolding children_ok_def by blast
      from a w(1) have "toLowerCase (path (heap st ! c)) = k" unfolding index_sound_def by blast
      with k have "topLevelKey (path (heap st ! c)) = topLevelKey (path (heap st ! p))"
        by (intro topLevelKey_child [of _ _ seg]) simp
      with child.IH show ?case by simp
    qed
  }
  {
    assume "\<exists>r0. (topLevelKey (path (heap st ! r)), r0) \<in> set t"
    with r show "reachable (heap st) t r"
    proof (induction r rule: less_induct)
      case (less r)
      let ?k = "toLowerCase (path (heap st ! r))"
      from less.prems obtain r0 where e: "(topLevelKey (path (heap st ! r)), r0) \<in> set t" by blast
      from w(2) less.prems have a: "map_of (allNodes st) ?k = Some r"
        unfolding index_complete_def by blast
      show ?case
      proof (cases "CHR ''/'' \<in> set ?k")
        case False
        then have "topLevelKey (path (heap st ! r)) = ?k"
          by (simp add: topLevelKey_no_slash slash_in_toLowerCase)
        with e have e': "(?k, r0) \<in> set t" by simp
        with sub have kr: "(?k, r0) \<in> set (tree st)" by blast
        from w(3) have "distinct (map fst (tree st))" unfolding roots_ok_def by simp
        from map_of_is_SomeI [OF this kr] have "map_of (tree st) ?k = Some r0" .
        moreover from w(3) have "map_of (tree st) ?k
            = (if CHR ''/'' \<in> set ?k then None else map_of (allNodes st) ?k)"
          unfolding roots_ok_def by blast
        ultimately have "r0 = r" using False a by simp
        with e' show ?thesis by (blast intro: reachable.root)
      next
        case True
        with ln a obtain pk seg pr where d: "?k = pk @ CHR ''/'' # seg"
            "map_of (allNodes st) pk = Some pr" "map_of (children (heap st ! pr)) ?k = Some r"
          unfolding linked_except_def by blast
        from d(2) w(1) have p: "pr < length (heap st)" "toLowerCase (path (heap st ! pr)) = pk"
          unfolding index_sound_def by blast+
        with w(4) d(3) have lt: "pr < r" unfolding children_ok_def by blast
        from d(1) p(2) have "topLevelKey (path (heap st ! r)) = topLevelKey (path (heap st ! pr))"
          by (intro topLevelKey_child [of _ _ seg]) simp
        with e have "\<exists>r0. (topLevelKey (path (heap st ! pr)), r0) \<in> set t" by auto
        from less.IH [OF lt p(1) this] have "reachable (heap st) t pr" .
        moreover from d(3) have "(?k, r) \<in> set (children (heap st ! pr))" by (rule map_of_SomeD)
        ultimately show ?thesis using p(1) by (blast intro: reachable.child)
      qed
    qed
  }
qed

lemma build_top_level:
  assumes "b = buildTagTreeFromDatabase isEx allFiles pats" and "r < length (out_heap b)"
    and "set t \<subseteq> set (out_tree b)"
  shows "\<exists>r0. map_of (out_tree b) (topLevelKey (path (out_heap b ! r))) = Some r0"
    and "reachable (out_heap b) t r \<longleftrightarrow> (\<exists>r0. (topLevelKey (path (out_heap b ! r)), r0) \<in> set t)"
proof -
  let ?st = "buildState isEx allFiles pats"
  from buildState_wf [of isEx allFiles pats]
  have wf: "wf_state ?st" and ln: "linked_except {} ?st" by simp_all
  from assms have h: "out_heap b = heap ?st" and t: "out_tree b = tree ?st"
    by (simp_all add: buildTagTreeFromDatabase_def Let_def)
  from assms(2) h have r: "r < length (heap ?st)" by simp
  from wf have d: "distinct (map fst (tree ?st))" unfolding wf_state_def roots_ok_def by simp
  from reachable_top_level [OF wf ln subset_refl r] build_reachable [OF wf ln r]
  obtain r0 where "(topLevelKey (path (heap ?st ! r)), r0) \<in> set (tree ?st)" by blast
  with d have "map_of (tree ?st) (topLevelKey (path (heap ?st ! r))) = Some r0" by simp
  then show "\<exists>r0. map_of (out_tree b) (topLevelKey (path (out_heap b ! r))) = Some r0"
    unfolding h t by blast
  from assms(3) have "set t \<subseteq> set (tree ?st)" unfolding t .
  from reachable_top_level [OF wf ln this r]
  show "reachable (out_heap b) t r \<longleftrightarrow> (\<exists>r0. (topLevelKey (path (out_heap b ! r)), r0) \<in> set t)"
    unfolding h .
qed

text \<open>
  One file tagged \<open>#project\<close> and \<open>#project/sub\<close>: the tree map has the single entry
  \<open>project\<close>, whose node has the child \<open>project/sub\<close>. Excluding \<open>project\<close> returns the
  empty map, so the node \<open>project/sub\<close> is not in the result either.
\<close>

theorem exclude_project_drops_subtree:
  "map path (out_heap (buildTagTreeFromDatabase noExclusion nestedFiles None))
     = [''project'', ''project/sub'']
   \<and> out_tree (buildTagTreeFromDatabase noExclusion nestedFiles None) = [(''project'', 0)]
   \<and> map children (out_heap (buildTagTreeFromDatabase noExclusion nestedFiles None))
     = [[(''project/sub'', 1)], []]
   \<and> excludeFromTagTree noRegExp
        (out_heap (buildTagTreeFromDatabase noExclusion nestedFiles None))
        (out_tree (buildTagTreeFromDatabase noExclusion nestedFiles None)) [''project''] = Inr []"
  by code_simp

text \<open>
  C1, for the map that the filter really walks. \<open>excludeFromTagTree\<close> tests the entries of
  the tree map only, and these are the top-level nodes (their paths have no slash). It
  returns the entries whose own path matches none of the parsed exclude patterns (the
  patterns joined with a comma, split at commas, trimmed, the empty ones removed), in
  their order, and it raises no error. It does not look at ancestor prefixes and does not
  test the nodes below the top level: a node of any depth is reachable from the result
  exactly when the path of its top-level ancestor matches no exclude pattern.
\<close>

theorem excludeFromTagTree_top_level_only:
  assumes "b = buildTagTreeFromDatabase isEx allFiles pats" and "r < length (out_heap b)"
  shows "\<exists>res top.
       excludeFromTagTree RegExp_i (out_heap b) (out_tree b) excludePatterns = Inr res
     \<and> res = filter (\<lambda>(key, node). \<not> (\<exists>pattern \<in> set (parseTagPatterns (join CHR '','' excludePatterns)).
           fst (matchesTagPattern RegExp_i (path (out_heap b ! node)) pattern) = Inr True)) (out_tree b)
     \<and> map_of (out_tree b) (topLevelKey (path (out_heap b ! r))) = Some top
     \<and> (reachable (out_heap b) res r \<longleftrightarrow>
          \<not> (\<exists>pattern \<in> set (parseTagPatterns (join CHR '','' excludePatterns)).
               fst (matchesTagPattern RegExp_i (path (out_heap b ! top)) pattern) = Inr True))"
proof -
  note rt = build_roots [OF assms(1)]
  let ?P = "\<lambda>(key, node). \<not> (\<exists>pattern \<in> set (parseTagPatterns (join CHR '','' excludePatterns)).
           fst (matchesTagPattern RegExp_i (path (out_heap b ! node)) pattern) = Inr True)"
  let ?res = "filter ?P (out_tree b)"
  have e: "excludeFromTagTree RegExp_i (out_heap b) (out_tree b) excludePatterns = Inr ?res"
  proof (cases "excludePatterns = []")
    case True
    then show ?thesis by (simp add: excludeFromTagTree_def parseTagPatterns_empty)
  next
    case False
    then show ?thesis
      using excludeFromTagTree_loop_eq [of "[]" "out_tree b"] rt(1)
      by (simp add: excludeFromTagTree_def)
  qed
  have sub: "set ?res \<subseteq> set (out_tree b)" by auto
  from build_top_level(1) [OF assms subset_refl] obtain top
    where top: "map_of (out_tree b) (topLevelKey (path (out_heap b ! r))) = Some top" by blast
  have u: "(topLevelKey (path (out_heap b ! r)), r0) \<in> set (out_tree b) \<longleftrightarrow> r0 = top" for r0
    using map_of_SomeD [OF top] eq_key_imp_eq_value [OF rt(1)] by blast
  have "(\<exists>r0. (topLevelKey (path (out_heap b ! r)), r0) \<in> set ?res) \<longleftrightarrow> ?P (topLevelKey (path (out_heap b ! r)), top)"
    by (auto simp: u)
  with build_top_level(2) [OF assms sub]
  have "reachable (out_heap b) ?res r \<longleftrightarrow> ?P (topLevelKey (path (out_heap b ! r)), top)" by simp
  with e top show ?thesis by simp
qed

theorem excludeFromTagTree_top_level_only_witness:
  "1 < length (out_heap (buildTagTreeFromDatabase noExclusion nestedFiles None))
   \<and> excludeFromTagTree noRegExp
        (out_heap (buildTagTreeFromDatabase noExclusion nestedFiles None))
        (out_tree (buildTagTreeFromDatabase noExclusion nestedFiles None)) [''project/sub'']
      = Inr [(''project'', 0)]
   \<and> reachable (out_heap (buildTagTreeFromDatabase noExclusion nestedFiles None))
        [(''project'', 0)] 1"
proof -
  let ?b = "buildTagTreeFromDatabase noExclusion nestedFiles None"
  have l: "1 < length (out_heap ?b)" by code_simp
  have e: "excludeFromTagTree noRegExp (out_heap ?b) (out_tree ?b) [''project/sub'']
      = Inr [(''project'', 0)]" by code_simp
  have t: "map_of (out_tree ?b) (topLevelKey (path (out_heap ?b ! 1))) = Some 0" by code_simp
  have n: "\<not> (\<exists>pattern \<in> set (parseTagPatterns (join CHR '','' [''project/sub''])).
      fst (matchesTagPattern noRegExp (path (out_heap ?b ! 0)) pattern) = Inr True)" by code_simp
  from excludeFromTagTree_top_level_only [OF refl l, of noRegExp "[''project/sub'']"]
  obtain res top where r: "excludeFromTagTree noRegExp (out_heap ?b) (out_tree ?b) [''project/sub''] = Inr res"
    "map_of (out_tree ?b) (topLevelKey (path (out_heap ?b ! 1))) = Some top"
    "reachable (out_heap ?b) res 1 \<longleftrightarrow>
       \<not> (\<exists>pattern \<in> set (parseTagPatterns (join CHR '','' [''project/sub''])).
          fst (matchesTagPattern noRegExp (path (out_heap ?b ! top)) pattern) = Inr True)"
    by blast
  from r(1) e have "res = [(''project'', 0)]" by simp
  moreover from r(2) t have "top = 0" by simp
  ultimately have "reachable (out_heap ?b) [(''project'', 0)] 1" using r(3) n by simp
  with l e show ?thesis by simp
qed

text \<open>
  In the same tree the pattern \<open>project/sub\<close> matches the path of the node \<open>project/sub\<close>,
  yet \<open>filterTagTree\<close> with that pattern returns the empty map: the node is not kept
  although its own path matches.
\<close>

theorem filter_own_path_not_enough:
  "map path (out_heap (buildTagTreeFromDatabase noExclusion nestedFiles None))
     = [''project'', ''project/sub'']
   \<and> out_tree (buildTagTreeFromDatabase noExclusion nestedFiles None) = [(''project'', 0)]
   \<and> fst (matchesTagPattern noRegExp ''project/sub'' ''project/sub'') = Inr True
   \<and> filterTagTree noRegExp
        (out_heap (buildTagTreeFromDatabase noExclusion nestedFiles None))
        (out_tree (buildTagTreeFromDatabase noExclusion nestedFiles None)) [''project/sub''] = Inr []"
  by code_simp


text \<open>
  C2, for the map that the filter really walks. For a non-empty pattern list
  \<open>filterTagTree\<close> tests the entries of the tree map only, the top-level nodes. Their
  paths have one segment, so the loop over ancestor prefixes tests the node's own path
  and nothing else: the result holds the entries whose own path matches at least one of
  the parsed include patterns, and no error is raised. The nodes below the top level are
  not tested: a node of any depth is reachable from the result exactly when the path of
  its top-level ancestor matches an include pattern. So a pattern that matches \<open>project\<close>
  retains \<open>project/sub\<close>, and a pattern that matches only \<open>project/sub\<close> retains nothing.
\<close>

theorem filterTagTree_top_level_only:
  assumes "b = buildTagTreeFromDatabase isEx allFiles pats" and "r < length (out_heap b)"
    and "includePatterns \<noteq> []"
  shows "\<exists>res top.
       filterTagTree RegExp_i (out_heap b) (out_tree b) includePatterns = Inr res
     \<and> res = filter (\<lambda>(key, node). \<exists>pattern \<in> set (parseTagPatterns (join CHR '','' includePatterns)).
           fst (matchesTagPattern RegExp_i (path (out_heap b ! node)) pattern) = Inr True) (out_tree b)
     \<and> map_of (out_tree b) (topLevelKey (path (out_heap b ! r))) = Some top
     \<and> (reachable (out_heap b) res r \<longleftrightarrow>
          (\<exists>pattern \<in> set (parseTagPatterns (join CHR '','' includePatterns)).
               fst (matchesTagPattern RegExp_i (path (out_heap b ! top)) pattern) = Inr True))"
proof -
  note rt = build_roots [OF assms(1)]
  let ?ps = "parseTagPatterns (join CHR '','' includePatterns)"
  let ?P = "\<lambda>(key, node). \<exists>pattern \<in> set ?ps.
           fst (matchesTagPattern RegExp_i (path (out_heap b ! node)) pattern) = Inr True"
  let ?res = "filter ?P (out_tree b)"
  have one: "(\<exists>j \<in> {1..length (split CHR ''/'' (path (out_heap b ! node)))}. \<exists>pattern \<in> set ?ps.
            fst (matchesTagPattern RegExp_i
              (join CHR ''/'' (take j (split CHR ''/'' (path (out_heap b ! node))))) pattern) = Inr True)
       = (\<exists>pattern \<in> set ?ps.
           fst (matchesTagPattern RegExp_i (path (out_heap b ! node)) pattern) = Inr True)"
    if "(key, node) \<in> set (out_tree b)" for key node
  proof -
    from rt(2) [OF that] have "split CHR ''/'' (path (out_heap b ! node)) = [path (out_heap b ! node)]"
      by (simp add: split_no_sep)
    then show ?thesis by simp
  qed
  have "filter (\<lambda>(key, node).
          \<exists>j \<in> {1..length (split CHR ''/'' (path (out_heap b ! node)))}. \<exists>pattern \<in> set ?ps.
            fst (matchesTagPattern RegExp_i
              (join CHR ''/'' (take j (split CHR ''/'' (path (out_heap b ! node))))) pattern) = Inr True)
          (out_tree b) = ?res"
  proof (rule filter_cong [OF refl])
    fix x assume x: "x \<in> set (out_tree b)"
    obtain key node where e: "x = (key, node)" by (cases x)
    from one [OF x [unfolded e]]
    show "(case x of (key, node) \<Rightarrow>
          \<exists>j \<in> {1..length (split CHR ''/'' (path (out_heap b ! node)))}. \<exists>pattern \<in> set ?ps.
            fst (matchesTagPattern RegExp_i
              (join CHR ''/'' (take j (split CHR ''/'' (path (out_heap b ! node))))) pattern) = Inr True)
      = ?P x"
      unfolding e prod.case .
  qed
  then have e: "filterTagTree RegExp_i (out_heap b) (out_tree b) includePatterns = Inr ?res"
    using filterTagTree_loop_eq [of "[]" "out_tree b" RegExp_i "out_heap b" ?ps] rt(1) assms(3)
    by (simp add: filterTagTree_def)
  have sub: "set ?res \<subseteq> set (out_tree b)" by auto
  from build_top_level(1) [OF assms(1,2) subset_refl] obtain top
    where top: "map_of (out_tree b) (topLevelKey (path (out_heap b ! r))) = Some top" by blast
  have u: "(topLevelKey (path (out_heap b ! r)), r0) \<in> set (out_tree b) \<longleftrightarrow> r0 = top" for r0
    using map_of_SomeD [OF top] eq_key_imp_eq_value [OF rt(1)] by blast
  have "(\<exists>r0. (topLevelKey (path (out_heap b ! r)), r0) \<in> set ?res) \<longleftrightarrow> ?P (topLevelKey (path (out_heap b ! r)), top)"
    by (auto simp: u)
  with build_top_level(2) [OF assms(1,2) sub]
  have "reachable (out_heap b) ?res r \<longleftrightarrow> ?P (topLevelKey (path (out_heap b ! r)), top)" by simp
  with e top show ?thesis by simp
qed

theorem filterTagTree_top_level_only_witness:
  "1 < length (out_heap (buildTagTreeFromDatabase noExclusion nestedFiles None))
   \<and> [''project*''] \<noteq> []
   \<and> filterTagTree noRegExp
        (out_heap (buildTagTreeFromDatabase noExclusion nestedFiles None))
        (out_tree (buildTagTreeFromDatabase noExclusion nestedFiles None)) [''project*'']
      = Inr [(''project'', 0)]
   \<and> reachable (out_heap (buildTagTreeFromDatabase noExclusion nestedFiles None))
        [(''project'', 0)] 1"
proof -
  let ?b = "buildTagTreeFromDatabase noExclusion nestedFiles None"
  have l: "1 < length (out_heap ?b)" by code_simp
  have ne: "[''project*''] \<noteq> []" by simp
  have e: "filterTagTree noRegExp (out_heap ?b) (out_tree ?b) [''project*'']
      = Inr [(''project'', 0)]" by code_simp
  have t: "map_of (out_tree ?b) (topLevelKey (path (out_heap ?b ! 1))) = Some 0" by code_simp
  have n: "\<exists>pattern \<in> set (parseTagPatterns (join CHR '','' [''project*''])).
      fst (matchesTagPattern noRegExp (path (out_heap ?b ! 0)) pattern) = Inr True" by code_simp
  from filterTagTree_top_level_only [OF refl l ne, of noRegExp]
  obtain res top where r: "filterTagTree noRegExp (out_heap ?b) (out_tree ?b) [''project*''] = Inr res"
    "map_of (out_tree ?b) (topLevelKey (path (out_heap ?b ! 1))) = Some top"
    "reachable (out_heap ?b) res 1 \<longleftrightarrow>
       (\<exists>pattern \<in> set (parseTagPatterns (join CHR '','' [''project*''])).
          fst (matchesTagPattern noRegExp (path (out_heap ?b ! top)) pattern) = Inr True)"
    by blast
  from r(1) e have "res = [(''project'', 0)]" by simp
  moreover from r(2) t have "top = 0" by simp
  ultimately have "reachable (out_heap ?b) [(''project'', 0)] 1" using r(3) n by simp
  with l e show ?thesis by simp
qed

section \<open>Aggregate note counts\<close>

lemma childEdges_iff:
  "(p, c) \<in> childEdges h \<longleftrightarrow> p < length h \<and> c \<in> set (Map_values (children (h ! p)))"
  by (simp add: childEdges_def)

lemma subtree_unfold:
  "subtree h r = insert r (\<Union>c \<in> {c. (r, c) \<in> childEdges h}. subtree h c)"
proof (intro set_eqI iffI)
  fix d assume "d \<in> subtree h r"
  then have "(r, d) \<in> (childEdges h)\<^sup>*" by (simp add: subtree_def)
  then show "d \<in> insert r (\<Union>c \<in> {c. (r, c) \<in> childEdges h}. subtree h c)"
    by (cases rule: converse_rtranclE) (auto simp: subtree_def)
next
  fix d assume "d \<in> insert r (\<Union>c \<in> {c. (r, c) \<in> childEdges h}. subtree h c)"
  then show "d \<in> subtree h r"
    by (auto simp: subtree_def intro: converse_rtrancl_into_rtrancl)
qed

lemma subtreeNotes_unfold:
  assumes "r < length h"
  shows "subtreeNotes h r = set (notesWithTag (h ! r))
     \<union> (\<Union>c \<in> set (Map_values (children (h ! r))). subtreeNotes h c)"
proof -
  have "{c. (r, c) \<in> childEdges h} = set (Map_values (children (h ! r)))"
    using assms by (auto simp: childEdges_iff)
  with subtree_unfold [of h r] show ?thesis by (auto simp: subtreeNotes_def)
qed

lemma foldl_Set_add:
  "distinct s \<Longrightarrow> distinct (foldl (\<lambda>s file. Set_add file s) s xs)
     \<and> set (foldl (\<lambda>s file. Set_add file s) s xs) = set s \<union> set xs"
  by (induction xs arbitrary: s) (auto simp: distinct_Set_add set_Set_add)

lemma collectFromChildren_correct:
  "heap_ordered h \<Longrightarrow> \<forall>c \<in> set cs. c < length h \<and> length h \<le> c + fuel \<Longrightarrow> distinct acc \<Longrightarrow>
     \<exists>res. collectFromChildren fuel h cs acc = Some res \<and> distinct res
       \<and> set res = set acc \<union> (\<Union>c \<in> set cs. subtreeNotes h c)"
proof (induction fuel h cs acc rule: collectFromChildren.induct)
  case (1 fuel h allFiles)
  then show ?case by simp
next
  case (2 h child rest allFiles)
  from "2.prems"(2) have "child < length h" and "length h \<le> child" by simp_all
  then have False by linarith
  then show ?case ..
next
  case (3 fuel h child rest allFiles)
  note ho = "3.prems"(1)
  from "3.prems"(2) have c: "child < length h" and f: "length h \<le> child + Suc fuel" by simp_all
  let ?kids = "Map_values (children (h ! child))"
  let ?acc1 = "foldl (\<lambda>s file. Set_add file s) allFiles (notesWithTag (h ! child))"
  from ho c have ord: "\<forall>k \<in> set ?kids. child < k \<and> k < length h"
    unfolding heap_ordered_def by blast
  have k: "\<forall>k \<in> set ?kids. k < length h \<and> length h \<le> k + fuel"
  proof
    fix k assume "k \<in> set ?kids"
    with ord have "child < k" and "k < length h" by blast+
    with f show "k < length h \<and> length h \<le> k + fuel" by linarith
  qed
  from foldl_Set_add [OF "3.prems"(3)] have a1: "distinct ?acc1"
    and s1: "set ?acc1 = set allFiles \<union> set (notesWithTag (h ! child))" by simp_all
  from "3.IH"(1) [OF c ho k a1] obtain res1 where r1: "collectFromChildren fuel h ?kids ?acc1 = Some res1"
    and d1: "distinct res1" and e1: "set res1 = set ?acc1 \<union> (\<Union>k \<in> set ?kids. subtreeNotes h k)"
    by blast
  have e1': "set res1 = set allFiles \<union> subtreeNotes h child"
    unfolding e1 s1 subtreeNotes_unfold [OF c] by (simp add: Un_assoc)
  from "3.prems"(2) have rest: "\<forall>c \<in> set rest. c < length h \<and> length h \<le> c + Suc fuel" by simp
  from "3.IH"(2) [OF c r1 ho rest d1] obtain res where
    r: "collectFromChildren (Suc fuel) h rest res1 = Some res" and d: "distinct res"
    and e: "set res = set res1 \<union> (\<Union>c \<in> set rest. subtreeNotes h c)" by blast
  from c r1 r have "collectFromChildren (Suc fuel) h (child # rest) allFiles = Some res" by simp
  moreover have "set res = set allFiles \<union> (\<Union>c \<in> set (child # rest). subtreeNotes h c)"
    unfolding e e1' by (simp add: Un_assoc)
  ultimately show ?case using d by blast
qed

lemma getTotalNoteCount_correct:
  assumes ord: "heap_ordered h" and cv: "cache_valid h cache" and n: "node < length h"
    and fuel: "length h \<le> fuel"
  shows "\<exists>cache'. getTotalNoteCount fuel h cache node = (Some (card (subtreeNotes h node)), cache')
       \<and> cache_valid h cache'"
proof (cases "Map_get (getNoteCountCache cache) node")
  case (Some k)
  with cv have "k = card (subtreeNotes h node)" unfolding cache_valid_def Map_get_def by blast
  moreover have "cache_valid h (Some (getNoteCountCache cache))"
    using cv unfolding cache_valid_def getNoteCountCache_def by simp
  ultimately show ?thesis using Some by (simp add: getTotalNoteCount_def Let_def)
next
  case None
  let ?kids = "Map_values (children (h ! node))"
  from ord n have d: "distinct (notesWithTag (h ! node))"
    and o: "\<forall>c \<in> set ?kids. node < c \<and> c < length h" unfolding heap_ordered_def by blast+
  with fuel have k: "\<forall>c \<in> set ?kids. c < length h \<and> length h \<le> c + fuel" by auto
  from collectFromChildren_correct [OF ord k d] obtain res where
    r: "collectFromChildren fuel h ?kids (notesWithTag (h ! node)) = Some res"
    and dr: "distinct res"
    and e: "set res = set (notesWithTag (h ! node)) \<union> (\<Union>c \<in> set ?kids. subtreeNotes h c)"
    by blast
  from e subtreeNotes_unfold [OF n] have "set res = subtreeNotes h node" by simp
  with dr have len: "length res = card (subtreeNotes h node)" by (metis distinct_card)
  have "cache_valid h (Some (Map_set node (length res) (getNoteCountCache cache)))"
    using cv len unfolding cache_valid_def by (simp add: getNoteCountCache_def map_of_Map_set)
  with None r len show ?thesis by (simp add: getTotalNoteCount_def Let_def)
qed

lemma getTotalNoteCounts_correct:
  assumes ord: "heap_ordered h" and fuel: "length h \<le> fuel"
  shows "cache_valid h cache \<Longrightarrow> \<forall>n \<in> set nodes. n < length h \<Longrightarrow>
     getTotalNoteCounts fuel h cache nodes = map (\<lambda>n. Some (card (subtreeNotes h n))) nodes"
proof (induction nodes arbitrary: cache)
  case Nil
  show ?case by simp
next
  case (Cons n nodes)
  from Cons.prems(2) have n: "n < length h" by simp
  from getTotalNoteCount_correct [OF ord Cons.prems(1) n fuel] obtain cache' where
    g: "getTotalNoteCount fuel h cache n = (Some (card (subtreeNotes h n)), cache')"
    and cv: "cache_valid h cache'" by blast
  from Cons.IH [OF cv] Cons.prems(2) g show ?case by simp
qed

lemma build_heap_ordered: "heap_ordered (heap (buildState isEx allFiles pats))"
proof -
  let ?st = "buildState isEx allFiles pats"
  from buildState_wf [of isEx allFiles pats]
  have w: "index_sound ?st" "children_ok ?st" "notes_ok ?st" unfolding wf_state_def by simp_all
  show ?thesis unfolding heap_ordered_def
  proof (intro allI impI conjI ballI)
    fix p assume p: "p < length (heap ?st)"
    with w(3) show "distinct (notesWithTag (heap ?st ! p))" unfolding notes_ok_def by blast
    fix c assume "c \<in> set (Map_values (children (heap ?st ! p)))"
    then obtain k where "(k, c) \<in> set (children (heap ?st ! p))" by (auto simp: Map_values_def)
    moreover from w(2) p have "distinct (map fst (children (heap ?st ! p)))"
      unfolding children_ok_def by blast
    ultimately have m: "map_of (children (heap ?st ! p)) k = Some c" by simp
    with w(2) p have "map_of (allNodes ?st) k = Some c" and lt: "p < c"
      unfolding children_ok_def by blast+
    with w(1) have "c < length (heap ?st)" unfolding index_sound_def by blast
    with lt show "p < c" "c < length (heap ?st)" by simp_all
  qed
qed

text \<open>
  C3. On the heap of a built tree, with fuel for the depth of the tree (the number of nodes
  is enough), every call in any sequence of calls of \<open>getTotalNoteCount\<close> on nodes of the
  tree, starting from the cache that the build has just cleared, returns the number of
  distinct files in the union of \<open>notesWithTag\<close> over the node and all its descendants,
  whether the call computes the count or finds it memoised. The count is therefore the
  number of distinct files tagged anywhere in the subtree, and a file tagged at two nested
  depths is in that union once.
\<close>

theorem getTotalNoteCount_is_union_size:
  assumes "b = buildTagTreeFromDatabase isEx allFiles pats"
    and "\<forall>n \<in> set nodes. n < length (out_heap b)"
    and "length (out_heap b) \<le> fuel"
  shows "getTotalNoteCounts fuel (out_heap b) (out_noteCountCache b) nodes
       = map (\<lambda>n. Some (card (subtreeNotes (out_heap b) n))) nodes"
proof -
  from assms(1) have h: "out_heap b = heap (buildState isEx allFiles pats)"
    and c: "out_noteCountCache b = None"
    by (simp_all add: buildTagTreeFromDatabase_def Let_def clearNoteCountCache_def)
  have cv: "cache_valid (out_heap b) None"
    by (simp add: cache_valid_def getNoteCountCache_def)
  from build_heap_ordered [of isEx allFiles pats] have "heap_ordered (out_heap b)" unfolding h .
  from getTotalNoteCounts_correct [OF this assms(3) cv assms(2)] show ?thesis unfolding c .
qed

theorem getTotalNoteCount_is_union_size_witness:
  "length (out_heap (buildTagTreeFromDatabase noExclusion nestedFiles None)) = 2
   \<and> map notesWithTag (out_heap (buildTagTreeFromDatabase noExclusion nestedFiles None))
       = [[''a.md''], [''a.md'', ''b.md'']]
   \<and> getTotalNoteCounts 2 (out_heap (buildTagTreeFromDatabase noExclusion nestedFiles None))
        (out_noteCountCache (buildTagTreeFromDatabase noExclusion nestedFiles None)) [0, 1, 0]
       = [Some 2, Some 2, Some 2]
   \<and> card (subtreeNotes (out_heap (buildTagTreeFromDatabase noExclusion nestedFiles None)) 0) = 2"
proof -
  let ?b = "buildTagTreeFromDatabase noExclusion nestedFiles None"
  have l: "\<forall>n \<in> set [0, 1, 0]. n < length (out_heap ?b)" by code_simp
  have f: "length (out_heap ?b) \<le> 2" by code_simp
  have m: "map notesWithTag (out_heap ?b) = [[''a.md''], [''a.md'', ''b.md'']]" by code_simp
  have e: "getTotalNoteCounts 2 (out_heap ?b) (out_noteCountCache ?b) [0, 1, 0]
      = [Some 2, Some 2, Some 2]" by code_simp
  from getTotalNoteCount_is_union_size [OF refl l f] e
  have "card (subtreeNotes (out_heap ?b) 0) = 2" by simp
  moreover have "length (out_heap ?b) = 2" by code_simp
  ultimately show ?thesis using m e by simp
qed

section \<open>First-seen casing\<close>

lemma find_append:
  "List.find P (xs @ ys) = (case List.find P xs of None \<Rightarrow> List.find P ys | Some x \<Rightarrow> Some x)"
  by (induction xs) auto

lemma find_append_redundant:
  assumes "\<forall>x \<in> set ys. P x \<longrightarrow> (\<exists>y \<in> set xs. P y)"
  shows "List.find P (xs @ ys) = List.find P xs"
proof (cases "List.find P xs")
  case None
  then have "\<forall>y \<in> set xs. \<not> P y" by (simp add: find_None_iff)
  with assms have "\<forall>x \<in> set ys. \<not> P x" by blast
  then have "List.find P ys = None" by (simp add: find_None_iff)
  with None show ?thesis by (simp add: find_append)
next
  case (Some x)
  then show ?thesis by (simp add: find_append)
qed

lemma casing_ok_caseMap [simp]: "casing_ok L (st\<lparr>caseMap := m\<rparr>) = casing_ok L st"
  unfolding casing_ok_def by simp

lemma casing_ok_untaggedCount [simp]: "casing_ok L (st\<lparr>untaggedCount := m\<rparr>) = casing_ok L st"
  unfolding casing_ok_def by simp

lemma partsBody_frame:
  assumes "partsBody f parts i c st = (c', st')"
  shows "caseMap st' = caseMap st"
    and "c' = (if i = 0 then parts ! i else c @ CHR ''/'' # parts ! i)"
    and "length (heap st) \<le> length (heap st')"
    and "r < length (heap st) \<Longrightarrow> path (heap st' ! r) = path (heap st ! r)"
    and "map_of (allNodes st) (toLowerCase c') \<noteq> None \<Longrightarrow> allNodes st' = allNodes st"
    and "map_of (allNodes st) (toLowerCase c') = None \<Longrightarrow>
           allNodes st' = Map_set (toLowerCase c') (length (heap st)) (allNodes st)
         \<and> path (heap st' ! length (heap st)) = c'"
proof -
  define part where "part = parts ! i"
  define cp where "cp = (if i = 0 then part else c @ CHR ''/'' # part)"
  define k where "k = toLowerCase cp"
  obtain node st1 where g: "getOrCreateNode i part cp k st = (node, st1)"
    by (cases "getOrCreateNode i part cp k st")
  define st2 where "st2 = (if i = length parts - 1 then addNote f node st1 else st1)"
  define st3 where "st3 = (if 0 < i then linkToParent parts i k node st2 else st2)"
  from assms g have c': "c' = cp" and st': "st' = st3"
    by (auto simp: partsBody_unfold part_def cp_def k_def st2_def st3_def)
  from c' show "c' = (if i = 0 then parts ! i else c @ CHR ''/'' # parts ! i)"
    by (simp add: cp_def part_def)
  have f2: "length (heap st2) = length (heap st1)" "allNodes st2 = allNodes st1"
    "caseMap st2 = caseMap st1"
    "\<And>r. r < length (heap st1) \<Longrightarrow> path (heap st2 ! r) = path (heap st1 ! r)"
    by (simp_all add: st2_def addNote_frame)
  have f3: "length (heap st3) = length (heap st1)" "allNodes st3 = allNodes st1"
    "caseMap st3 = caseMap st1"
    "\<And>r. r < length (heap st1) \<Longrightarrow> path (heap st3 ! r) = path (heap st1 ! r)"
    using f2 by (simp_all add: st3_def linkToParent_frame)
  have g1: "caseMap st1 = caseMap st \<and> length (heap st) \<le> length (heap st1)
      \<and> (\<forall>r < length (heap st). path (heap st1 ! r) = path (heap st ! r))
      \<and> (map_of (allNodes st) k \<noteq> None \<longrightarrow> allNodes st1 = allNodes st)
      \<and> (map_of (allNodes st) k = None \<longrightarrow>
           allNodes st1 = Map_set k (length (heap st)) (allNodes st)
         \<and> length (heap st) < length (heap st1)
         \<and> path (heap st1 ! length (heap st)) = cp)"
  proof (cases "map_of (allNodes st) k")
    case (Some n)
    from g getOrCreateNode_existing [OF Some, of i part cp] have "st1 = st" by simp
    with Some show ?thesis by simp
  next
    case None
    note n = getOrCreateNode_new [OF None g]
    from n None show ?thesis by (simp add: nth_append)
  qed
  from g1 f3 st' show "caseMap st' = caseMap st" by simp
  from g1 f3 st' show "length (heap st) \<le> length (heap st')" by simp
  from g1 f3 st' show "r < length (heap st) \<Longrightarrow> path (heap st' ! r) = path (heap st ! r)" by simp
  from g1 f3 st' c' show "map_of (allNodes st) (toLowerCase c') \<noteq> None \<Longrightarrow> allNodes st' = allNodes st"
    by (simp add: k_def)
  from g1 f3 st' c' show "map_of (allNodes st) (toLowerCase c') = None \<Longrightarrow>
           allNodes st' = Map_set (toLowerCase c') (length (heap st)) (allNodes st)
         \<and> path (heap st' ! length (heap st)) = c'"
    by (simp add: k_def)
qed

lemma partsBody_casing:
  assumes co: "casing_ok L st" and isd: "index_sound st"
    and body: "partsBody f parts i c st = (c', st')"
  shows "casing_ok (L @ [c']) st'"
  unfolding casing_ok_def
proof
  fix k
  note fr = partsBody_frame [OF body]
  from co have cok: "map_option (\<lambda>r. path (heap st ! r)) (map_of (allNodes st) k)
      = List.find (\<lambda>p. toLowerCase p = k) L" unfolding casing_ok_def by blast
  have old: "map_option (\<lambda>r. path (heap st' ! r)) (map_of (allNodes st) k)
      = map_option (\<lambda>r. path (heap st ! r)) (map_of (allNodes st) k)"
  proof (cases "map_of (allNodes st) k")
    case None then show ?thesis by simp
  next
    case (Some r)
    with isd have "r < length (heap st)" unfolding index_sound_def by blast
    with Some fr(4) show ?thesis by simp
  qed
  show "map_option (\<lambda>r. path (heap st' ! r)) (map_of (allNodes st') k)
      = List.find (\<lambda>p. toLowerCase p = k) (L @ [c'])"
  proof (cases "map_of (allNodes st) (toLowerCase c')")
    case (Some n)
    then have a: "allNodes st' = allNodes st" using fr(5) by simp
    have "List.find (\<lambda>p. toLowerCase p = k) (L @ [c']) = List.find (\<lambda>p. toLowerCase p = k) L"
    proof (cases "toLowerCase c' = k")
      case True
      with Some cok have "List.find (\<lambda>p. toLowerCase p = k) L = Some (path (heap st ! n))"
        by simp
      then show ?thesis by (auto simp: find_append)
    next
      case False
      then show ?thesis by (simp add: find_append split: option.splits)
    qed
    with a old cok show ?thesis by simp
  next
    case None
    with fr(6) have a: "allNodes st' = Map_set (toLowerCase c') (length (heap st)) (allNodes st)"
      and p: "path (heap st' ! length (heap st)) = c'" by simp_all
    show ?thesis
    proof (cases "toLowerCase c' = k")
      case True
      with None cok have "List.find (\<lambda>p. toLowerCase p = k) L = None" by simp
      with True a p show ?thesis by (simp add: find_append map_of_Map_set)
    next
      case False
      then have "List.find (\<lambda>p. toLowerCase p = k) (L @ [c']) = List.find (\<lambda>p. toLowerCase p = k) L"
        by (simp add: find_append split: option.splits)
      moreover from False a have "map_of (allNodes st') k = map_of (allNodes st) k"
        by (simp add: map_of_Map_set)
      ultimately show ?thesis using old cok by simp
    qed
  qed
qed

lemma tagPrefixes_upt:
  "tagPrefixes t = map (\<lambda>j. join CHR ''/'' (take (Suc j) (split CHR ''/'' t)))
     [0..<length (split CHR ''/'' t)]"
  by (simp add: tagPrefixes_def)

lemma partsLoop_casing:
  assumes wf: "wf_state st" and ln: "linked_except {} st" and co: "casing_ok L st"
  shows "wf_state (partsLoop f (split CHR ''/'' t) 0 c st)
       \<and> linked_except {} (partsLoop f (split CHR ''/'' t) 0 c st)
       \<and> casing_ok (L @ tagPrefixes t) (partsLoop f (split CHR ''/'' t) 0 c st)
       \<and> caseMap (partsLoop f (split CHR ''/'' t) 0 c st) = caseMap st"
proof -
  let ?parts = "split CHR ''/'' t"
  have sf: "\<forall>p \<in> set ?parts. CHR ''/'' \<notin> set p" by (simp add: split_parts_no_sep)
  let ?P = "\<lambda>i c s. wf_state s \<and> linked_except {} s \<and>
    (0 < i \<longrightarrow> c = join CHR ''/'' (take i ?parts) \<and> map_of (allNodes s) (toLowerCase c) \<noteq> None)
    \<and> casing_ok (L @ map (\<lambda>j. join CHR ''/'' (take (Suc j) ?parts)) [0..<i]) s
    \<and> caseMap s = caseMap st"
  show ?thesis
  proof (rule partsLoop_invariant [where P = ?P])
    show "0 \<le> length ?parts" by simp
    show "?P 0 c st" using assms by simp
  next
    fix j c s c' s'
    assume j: "j < length ?parts" and p: "?P j c s" and b: "partsBody f ?parts j c s = (c', s')"
    from p have 1: "wf_state s" and 2: "linked_except {} s"
      and 3: "0 < j \<longrightarrow> c = join CHR ''/'' (take j ?parts) \<and> map_of (allNodes s) (toLowerCase c) \<noteq> None"
      and 4: "casing_ok (L @ map (\<lambda>j. join CHR ''/'' (take (Suc j) ?parts)) [0..<j]) s"
      and 5: "caseMap s = caseMap st"
      by blast+
    from partsBody_preserves [OF 1 2 j sf 3 b]
    have q: "wf_state s'" "linked_except {} s'" "c' = join CHR ''/'' (take (Suc j) ?parts)"
      "map_of (allNodes s') (toLowerCase c') \<noteq> None" by blast+
    from 1 have "index_sound s" unfolding wf_state_def by simp
    from partsBody_casing [OF 4 this b] q(3)
    have "casing_ok (L @ map (\<lambda>j. join CHR ''/'' (take (Suc j) ?parts)) [0..<Suc j]) s'" by simp
    moreover from partsBody_frame(1) [OF b] 5 have "caseMap s' = caseMap st" by simp
    ultimately show "?P (Suc j) c' s'" using q by blast
  next
    fix c' s'
    assume "?P (length ?parts) c' s'"
    then show "wf_state s' \<and> linked_except {} s' \<and> casing_ok (L @ tagPrefixes t) s'
        \<and> caseMap s' = caseMap st"
      by (simp add: tagPrefixes_upt)
  qed
qed


lemma toLowerCase_take_split:
  "toLowerCase (join CHR ''/'' (take n (split CHR ''/'' t)))
     = join CHR ''/'' (take n (split CHR ''/'' (toLowerCase t)))"
  by (simp add: toLowerCase_join split_toLowerCase take_map)

lemma tagPrefixes_lower: "map toLowerCase (tagPrefixes t) = tagPrefixes (toLowerCase t)"
  by (simp add: tagPrefixes_def toLowerCase_take_split split_toLowerCase o_def)

lemma self_in_tagPrefixes: "t \<in> set (tagPrefixes t)"
proof -
  let ?n = "length (split CHR ''/'' t)"
  have "0 < ?n" using split_nonempty [of "CHR ''/''" t] by simp
  then have "?n - 1 \<in> set [0..<?n]" by simp
  moreover have "join CHR ''/'' (take (Suc (?n - 1)) (split CHR ''/'' t)) = t"
    using \<open>0 < ?n\<close> by (simp add: join_split)
  ultimately show ?thesis unfolding tagPrefixes_def by (metis (no_types, lifting) image_eqI set_map)
qed

lemma caseMap_ok_mono: "caseMap_ok T st \<Longrightarrow> set T \<subseteq> set T' \<Longrightarrow> caseMap_ok T' st"
  unfolding caseMap_ok_def by blast

lemma processTag_scan_inv:
  assumes "scan_inv T st"
  shows "scan_inv (T @ [stripHash tag]) (processTag f tag st)"
proof -
  let ?t = "stripHash tag"
  let ?L = "concat (map tagPrefixes T)"
  let ?m = "Map_set (toLowerCase ?t) ?t (caseMap st)"
  from assms have wf: "wf_state st" and ln: "linked_except {} st" and cm: "caseMap_ok T st"
    and co: "casing_ok ?L st" unfolding scan_inv_def by simp_all
  have L': "concat (map tagPrefixes (T @ [?t])) = ?L @ tagPrefixes ?t" by simp
  have new: "processTag f tag st = partsLoop f (split CHR ''/'' ?t) 0 [] (st\<lparr>caseMap := ?m\<rparr>)"
    if "Map_get (caseMap st) (toLowerCase ?t) = None \<or> Map_get (caseMap st) (toLowerCase ?t) = Some []"
    using that unfolding processTag_def Let_def by auto
  have old: "processTag f tag st = partsLoop f (split CHR ''/'' c) 0 [] st"
    if "Map_get (caseMap st) (toLowerCase ?t) = Some c" and "c \<noteq> []" for c
    using that unfolding processTag_def Let_def by simp
  have fresh: ?thesis
    if n: "Map_get (caseMap st) (toLowerCase ?t) = None \<or> Map_get (caseMap st) (toLowerCase ?t) = Some []"
  proof -
    let ?st1 = "st\<lparr>caseMap := ?m\<rparr>"
    from partsLoop_casing [of ?st1 ?L f ?t "[]"] wf ln co
    have r: "wf_state (partsLoop f (split CHR ''/'' ?t) 0 [] ?st1)"
      "linked_except {} (partsLoop f (split CHR ''/'' ?t) 0 [] ?st1)"
      "casing_ok (?L @ tagPrefixes ?t) (partsLoop f (split CHR ''/'' ?t) 0 [] ?st1)"
      "caseMap (partsLoop f (split CHR ''/'' ?t) 0 [] ?st1) = ?m" by simp_all
    have "caseMap_ok (T @ [?t]) (partsLoop f (split CHR ''/'' ?t) 0 [] ?st1)"
      using cm unfolding caseMap_ok_def r(4) by (auto simp: map_of_Map_set split: if_splits)
    with r show ?thesis unfolding scan_inv_def new [OF n] L' by simp
  qed
  show ?thesis
  proof (cases "Map_get (caseMap st) (toLowerCase ?t)")
    case None
    with fresh show ?thesis by simp
  next
    case (Some c)
    show ?thesis
    proof (cases "c = []")
      case True
      with Some fresh show ?thesis by simp
    next
      case False
      from Some cm have cT: "c \<in> set T" and cl: "toLowerCase c = toLowerCase ?t"
        unfolding caseMap_ok_def Map_get_def by blast+
      from partsLoop_casing [OF wf ln co, of f c "[]"]
      have r: "wf_state (partsLoop f (split CHR ''/'' c) 0 [] st)"
        "linked_except {} (partsLoop f (split CHR ''/'' c) 0 [] st)"
        "casing_ok (?L @ tagPrefixes c) (partsLoop f (split CHR ''/'' c) 0 [] st)"
        "caseMap (partsLoop f (split CHR ''/'' c) 0 [] st) = caseMap st" by simp_all
      have sub: "set (tagPrefixes c) \<subseteq> set ?L" using cT by auto
      have lw: "map toLowerCase (tagPrefixes ?t) = map toLowerCase (tagPrefixes c)"
        using cl by (simp add: tagPrefixes_lower)
      have eq: "List.find (\<lambda>p. toLowerCase p = k) (?L @ tagPrefixes c)
          = List.find (\<lambda>p. toLowerCase p = k) (?L @ tagPrefixes ?t)" for k
      proof -
        have 1: "List.find (\<lambda>p. toLowerCase p = k) (?L @ tagPrefixes c)
            = List.find (\<lambda>p. toLowerCase p = k) ?L"
          using sub by (intro find_append_redundant) blast
        have "\<forall>x \<in> set (tagPrefixes ?t). toLowerCase x = k \<longrightarrow> (\<exists>y \<in> set ?L. toLowerCase y = k)"
        proof (intro ballI impI)
          fix x assume "x \<in> set (tagPrefixes ?t)" and "toLowerCase x = k"
          then have "k \<in> set (map toLowerCase (tagPrefixes ?t))" by auto
          with lw have "k \<in> set (map toLowerCase (tagPrefixes c))" by simp
          then obtain y where "y \<in> set (tagPrefixes c)" and "toLowerCase y = k" by auto
          with sub show "\<exists>y \<in> set ?L. toLowerCase y = k" by blast
        qed
        then have 2: "List.find (\<lambda>p. toLowerCase p = k) (?L @ tagPrefixes ?t)
            = List.find (\<lambda>p. toLowerCase p = k) ?L"
          by (rule find_append_redundant)
        from 1 2 show ?thesis by simp
      qed
      have "casing_ok (?L @ tagPrefixes ?t) (partsLoop f (split CHR ''/'' c) 0 [] st)"
        using r(3) unfolding casing_ok_def eq .
      moreover have "caseMap_ok (T @ [?t]) (partsLoop f (split CHR ''/'' c) 0 [] st)"
        using cm unfolding caseMap_ok_def r(4) by auto
      ultimately show ?thesis using r(1,2) unfolding scan_inv_def old [OF Some False] L' by simp
    qed
  qed
qed

lemma tagsLoop_scan_inv:
  "scan_inv T st \<Longrightarrow> scan_inv (T @ map stripHash ts) (tagsLoop f ts st)"
proof (induction ts arbitrary: T st)
  case Nil
  then show ?case by simp
next
  case (Cons tag ts)
  from Cons.IH [OF processTag_scan_inv [OF Cons.prems, of tag f]] show ?case by simp
qed

lemma scan_inv_untaggedCount [simp]: "scan_inv T (st\<lparr>untaggedCount := n\<rparr>) = scan_inv T st"
  unfolding scan_inv_def caseMap_ok_def by simp

lemma processFile_scan_inv:
  assumes "scan_inv T st"
  shows "scan_inv (T @ scannedTags isEx pats [rec]) (processFile isEx pats rec st)"
proof -
  obtain p d where rec: "rec = (p, d)" by (cases rec)
  show ?thesis
    using assms tagsLoop_scan_inv [OF assms]
    by (auto simp: rec processFile_def scannedTags_def split: option.splits)
qed

lemma scannedTags_Cons:
  "scannedTags isEx pats (rec # files) = scannedTags isEx pats [rec] @ scannedTags isEx pats files"
  by (simp add: scannedTags_def)

lemma filesLoop_scan_inv:
  "scan_inv T st \<Longrightarrow> scan_inv (T @ scannedTags isEx pats files) (filesLoop isEx pats files st)"
proof (induction files arbitrary: T st)
  case Nil
  then show ?case by (simp add: scannedTags_def)
next
  case (Cons rec files)
  from Cons.IH [OF processFile_scan_inv [OF Cons.prems, of isEx pats rec]]
  show ?case by (simp add: scannedTags_Cons [of isEx pats rec files])
qed

lemma buildState_scan_inv:
  "scan_inv (scannedTags isEx pats allFiles) (buildState isEx allFiles pats)"
proof -
  have "scan_inv [] initialState"
    using initialState_wf
    by (simp add: scan_inv_def caseMap_ok_def casing_ok_def initialState_def)
  from filesLoop_scan_inv [OF this, of isEx pats allFiles] show ?thesis
    by (simp add: buildState_def)
qed


text \<open>
  Three files tagged \<open>#PROJECT/sub\<close>, \<open>#Project\<close> and \<open>#project\<close>, scanned in this order.
  The two raw tags \<open>Project\<close> and \<open>project\<close> differ only in letter case and share the node
  of \<open>project\<close>; that node was created as the ancestor of \<open>PROJECT/sub\<close>, so it is displayed
  as \<open>PROJECT\<close>, which is the casing of neither raw tag.
\<close>

theorem first_raw_tag_casing_not_used:
  "scannedTags noExclusion None prefixFirstFiles = [''PROJECT/sub'', ''Project'', ''project'']
   \<and> map path (out_heap (buildTagTreeFromDatabase noExclusion prefixFirstFiles None))
       = [''PROJECT'', ''PROJECT/sub'']
   \<and> map name (out_heap (buildTagTreeFromDatabase noExclusion prefixFirstFiles None))
       = [''PROJECT'', ''sub'']
   \<and> map notesWithTag (out_heap (buildTagTreeFromDatabase noExclusion prefixFirstFiles None))
       = [[''b.md'', ''c.md''], [''a.md'']]"
  by code_simp

text \<open>
  C4, with the casing that the build really keeps, for tags of ASCII characters, on which
  \<open>toLowerCase\<close> agrees with the function of the source. Identity is case-insensitive: for every
  scanned tag exactly one node has the tag's lower-cased path, so raw tags that differ only
  in the case of the letters A to Z share one node, and no two nodes of the heap have the
  same lower-cased path. The path a node displays is the first path, in scan order, with
  that lower-cased form among the paths the scan meets, which are, tag by tag, the prefixes
  of one, two, ... segments of the tag path; the name is the last segment of that path. So
  a path first met as the ancestor prefix of a deeper tag keeps the prefix's casing,
  whatever the casing of the raw tags that follow.
\<close>

theorem tag_identity_first_seen_casing:
  assumes "b = buildTagTreeFromDatabase isEx allFiles pats"
    and "list_all isASCII (scannedTags isEx pats allFiles)"
  shows "(\<forall>t \<in> set (scannedTags isEx pats allFiles).
            \<exists>!r. r < length (out_heap b) \<and> toLowerCase (path (out_heap b ! r)) = toLowerCase t)
       \<and> (\<forall>r < length (out_heap b). \<forall>r' < length (out_heap b).
            toLowerCase (path (out_heap b ! r)) = toLowerCase (path (out_heap b ! r')) \<longrightarrow> r = r')
       \<and> (\<forall>r < length (out_heap b).
            List.find (\<lambda>p. toLowerCase p = toLowerCase (path (out_heap b ! r)))
              (scannedPaths isEx pats allFiles) = Some (path (out_heap b ! r))
          \<and> name (out_heap b ! r) = last (split CHR ''/'' (path (out_heap b ! r))))"
proof -
  let ?st = "buildState isEx allFiles pats"
  let ?T = "scannedTags isEx pats allFiles"
  let ?L = "scannedPaths isEx pats allFiles"
  from buildState_scan_inv [of isEx pats allFiles]
  have wf: "wf_state ?st" and co: "casing_ok ?L ?st"
    unfolding scan_inv_def scannedPaths_def by simp_all
  from wf have w: "index_sound ?st" "index_complete ?st" "names_ok ?st"
    unfolding wf_state_def by simp_all
  from assms(1) have h: "out_heap b = heap ?st"
    by (simp add: buildTagTreeFromDatabase_def Let_def)
  from co have cok: "map_option (\<lambda>r. path (heap ?st ! r)) (map_of (allNodes ?st) k)
      = List.find (\<lambda>p. toLowerCase p = k) ?L" for k
    unfolding casing_ok_def by blast
  have uniq: "r = r'" if "r < length (heap ?st)" and "r' < length (heap ?st)"
    and "toLowerCase (path (heap ?st ! r)) = toLowerCase (path (heap ?st ! r'))" for r r'
  proof -
    from w(2) that(1) have "map_of (allNodes ?st) (toLowerCase (path (heap ?st ! r))) = Some r"
      unfolding index_complete_def by blast
    then have a: "map_of (allNodes ?st) (toLowerCase (path (heap ?st ! r'))) = Some r"
      unfolding that(3) .
    from w(2) that(2)
    have "map_of (allNodes ?st) (toLowerCase (path (heap ?st ! r'))) = Some r'"
      unfolding index_complete_def by blast
    with a have "Some r = Some r'" by (rule trans [OF sym])
    then show ?thesis by (rule Option.option.inject [THEN iffD1])
  qed
  have 1: "\<forall>t \<in> set ?T. \<exists>!r. r < length (heap ?st) \<and> toLowerCase (path (heap ?st ! r)) = toLowerCase t"
  proof
    fix t assume t: "t \<in> set ?T"
    have "t \<in> set ?L"
      unfolding scannedPaths_def set_concat using t self_in_tagPrefixes [of t] by auto
    then have "\<exists>x. x \<in> set ?L \<and> toLowerCase x = toLowerCase t" by blast
    then have fn: "List.find (\<lambda>p. toLowerCase p = toLowerCase t) ?L \<noteq> None"
      unfolding find_None_iff by simp
    have "map_of (allNodes ?st) (toLowerCase t) \<noteq> None"
    proof
      assume "map_of (allNodes ?st) (toLowerCase t) = None"
      with cok [of "toLowerCase t"] fn show False by simp
    qed
    then obtain r where "map_of (allNodes ?st) (toLowerCase t) = Some r" by blast
    with w(1) have e: "r < length (heap ?st) \<and> toLowerCase (path (heap ?st ! r)) = toLowerCase t"
      unfolding index_sound_def by blast
    show "\<exists>!r. r < length (heap ?st) \<and> toLowerCase (path (heap ?st ! r)) = toLowerCase t"
    proof (rule ex1I [of _ r])
      show "r < length (heap ?st) \<and> toLowerCase (path (heap ?st ! r)) = toLowerCase t" by (rule e)
    next
      fix r' assume "r' < length (heap ?st) \<and> toLowerCase (path (heap ?st ! r')) = toLowerCase t"
      with e show "r' = r" by (intro uniq) simp_all
    qed
  qed
  have 3: "\<forall>r < length (heap ?st).
            List.find (\<lambda>p. toLowerCase p = toLowerCase (path (heap ?st ! r))) ?L
              = Some (path (heap ?st ! r))
          \<and> name (heap ?st ! r) = last (split CHR ''/'' (path (heap ?st ! r)))"
  proof (intro allI impI conjI)
    fix r assume r: "r < length (heap ?st)"
    with w(2) have "map_of (allNodes ?st) (toLowerCase (path (heap ?st ! r))) = Some r"
      unfolding index_complete_def by blast
    with cok [of "toLowerCase (path (heap ?st ! r))"]
    show "List.find (\<lambda>p. toLowerCase p = toLowerCase (path (heap ?st ! r))) ?L
        = Some (path (heap ?st ! r))"
      by simp
    from w(3) r show "name (heap ?st ! r) = last (split CHR ''/'' (path (heap ?st ! r)))"
      unfolding names_ok_def by blast
  qed
  have 2: "\<forall>r < length (heap ?st). \<forall>r' < length (heap ?st).
            toLowerCase (path (heap ?st ! r)) = toLowerCase (path (heap ?st ! r')) \<longrightarrow> r = r'"
    using uniq by blast
  show ?thesis unfolding h by (rule conjI, rule 1, rule conjI, rule 2, rule 3)
qed

theorem tag_identity_first_seen_casing_witness:
  "list_all isASCII (scannedTags noExclusion None prefixFirstFiles)
   \<and> ''Project'' \<in> set (scannedTags noExclusion None prefixFirstFiles)
   \<and> 0 < length (out_heap (buildTagTreeFromDatabase noExclusion prefixFirstFiles None))
   \<and> toLowerCase (path (out_heap (buildTagTreeFromDatabase noExclusion prefixFirstFiles None) ! 0))
       = toLowerCase ''Project''
   \<and> scannedPaths noExclusion None prefixFirstFiles
       = [''PROJECT'', ''PROJECT/sub'', ''Project'', ''project'']
   \<and> List.find (\<lambda>p. toLowerCase p
         = toLowerCase (path (out_heap (buildTagTreeFromDatabase noExclusion prefixFirstFiles None) ! 0)))
        (scannedPaths noExclusion None prefixFirstFiles)
       = Some (path (out_heap (buildTagTreeFromDatabase noExclusion prefixFirstFiles None) ! 0))"
proof -
  let ?b = "buildTagTreeFromDatabase noExclusion prefixFirstFiles None"
  have t: "''Project'' \<in> set (scannedTags noExclusion None prefixFirstFiles)" by code_simp
  have l: "0 < length (out_heap ?b)" by code_simp
  have k: "toLowerCase (path (out_heap ?b ! 0)) = toLowerCase ''Project''" by code_simp
  have s: "scannedPaths noExclusion None prefixFirstFiles
      = [''PROJECT'', ''PROJECT/sub'', ''Project'', ''project'']" by code_simp
  have a: "list_all isASCII (scannedTags noExclusion None prefixFirstFiles)" by code_simp
  from tag_identity_first_seen_casing [OF refl a] l
  have "List.find (\<lambda>p. toLowerCase p = toLowerCase (path (out_heap ?b ! 0)))
        (scannedPaths noExclusion None prefixFirstFiles) = Some (path (out_heap ?b ! 0))"
    by blast
  with a t l k s show ?thesis by simp
qed

end
